theory Spec2Isabelle
  imports Main "HOL-Library.Char_ord" "HOL-Library.List_Lexorder" "HOL-Library.Sublist"
begin

section \<open>Python strings\<close>

text \<open>
  A Python \<^verbatim>\<open>str\<close> is modelled as a \<^typ>\<open>string\<close>, each \<^typ>\<open>char\<close> standing for the
  code point of the same number, so the texts of the model are those over the code points
  0 to 255. The string methods the program calls are modelled with Python's behaviour on
  these code points: \<^verbatim>\<open>str.strip\<close> removes the code points 9 to 13, 28 to 32, 0x85 and
  0xA0; \<^verbatim>\<open>str.splitlines\<close> breaks at LF, CR, CR LF, VT, FF, FS, GS, RS and 0x85;
  \<^verbatim>\<open>lower\<close> maps the 26 letters and the capital letters 0xC0 to 0xDE (0xD7, the
  multiplication sign, is none) to the code point 32 above; \<^verbatim>\<open>upper\<close> maps the small
  letters back and writes \<^verbatim>\<open>SS\<close> for 0xDF, the sharp s. An optional string (\<^verbatim>\<open>None\<close> or
  a \<^verbatim>\<open>str\<close>) is a \<^typ>\<open>string option\<close>.
\<close>

definition is_space :: "char \<Rightarrow> bool" where
  "is_space c \<longleftrightarrow>
     c \<in> set [CHR 0x09, CHR 0x0A, CHR 0x0B, CHR 0x0C, CHR 0x0D,
              CHR 0x1C, CHR 0x1D, CHR 0x1E, CHR 0x1F, CHR 0x20, CHR 0x85, CHR 0xA0]"

definition is_break :: "char \<Rightarrow> bool" where
  "is_break c \<longleftrightarrow>
     c \<in> set [CHR 0x0A, CHR 0x0B, CHR 0x0C, CHR 0x0D, CHR 0x1C, CHR 0x1D, CHR 0x1E,
              CHR 0x85]"

definition strip :: "string \<Rightarrow> string" where
  "strip s = rev (dropWhile is_space (rev (dropWhile is_space s)))"

definition startswith :: "string \<Rightarrow> string \<Rightarrow> bool" where
  "startswith s p \<longleftrightarrow> take (length p) s = p"

definition endswith :: "string \<Rightarrow> string \<Rightarrow> bool" where
  "endswith s p \<longleftrightarrow> length p \<le> length s \<and> drop (length s - length p) s = p"

definition capital_letters :: string where
  "capital_letters =
     ''ABCDEFGHIJKLMNOPQRSTUVWXYZ''
       @ [CHR 0xC0, CHR 0xC1, CHR 0xC2, CHR 0xC3, CHR 0xC4, CHR 0xC5, CHR 0xC6, CHR 0xC7,
          CHR 0xC8, CHR 0xC9, CHR 0xCA, CHR 0xCB, CHR 0xCC, CHR 0xCD, CHR 0xCE, CHR 0xCF,
          CHR 0xD0, CHR 0xD1, CHR 0xD2, CHR 0xD3, CHR 0xD4, CHR 0xD5, CHR 0xD6, CHR 0xD8,
          CHR 0xD9, CHR 0xDA, CHR 0xDB, CHR 0xDC, CHR 0xDD, CHR 0xDE]"

definition small_letters :: string where
  "small_letters =
     ''abcdefghijklmnopqrstuvwxyz''
       @ [CHR 0xE0, CHR 0xE1, CHR 0xE2, CHR 0xE3, CHR 0xE4, CHR 0xE5, CHR 0xE6, CHR 0xE7,
          CHR 0xE8, CHR 0xE9, CHR 0xEA, CHR 0xEB, CHR 0xEC, CHR 0xED, CHR 0xEE, CHR 0xEF,
          CHR 0xF0, CHR 0xF1, CHR 0xF2, CHR 0xF3, CHR 0xF4, CHR 0xF5, CHR 0xF6, CHR 0xF8,
          CHR 0xF9, CHR 0xFA, CHR 0xFB, CHR 0xFC, CHR 0xFD, CHR 0xFE]"

definition lower_char :: "char \<Rightarrow> char" where
  "lower_char c =
     (case map_of (zip capital_letters small_letters) c of None \<Rightarrow> c | Some d \<Rightarrow> d)"

definition upper_char :: "char \<Rightarrow> char" where
  "upper_char c =
     (case map_of (zip small_letters capital_letters) c of None \<Rightarrow> c | Some d \<Rightarrow> d)"

definition lower :: "string \<Rightarrow> string" where
  "lower s = map lower_char s"

text \<open>The capital letters of the micro sign 0xB5 and of the y with diaeresis 0xFF have code
  points above 255, which no \<^typ>\<open>char\<close> stands for: \<open>upper\<close> leaves the two as they are,
  and a text with one of them is outside what the model says of \<^verbatim>\<open>upper\<close>.\<close>

definition upper :: "string \<Rightarrow> string" where
  "upper s = concat (map (\<lambda>c. if c = CHR 0xDF then ''SS'' else [upper_char c]) s)"

text \<open>\<^verbatim>\<open>s.split(sep, 1)\<close> for a one-character separator that occurs in \<^verbatim>\<open>s\<close>: the
  part before the first occurrence and the part after it.\<close>

definition split_before :: "char \<Rightarrow> string \<Rightarrow> string" where
  "split_before sep s = takeWhile (\<lambda>c. c \<noteq> sep) s"

definition split_after :: "char \<Rightarrow> string \<Rightarrow> string" where
  "split_after sep s = drop 1 (dropWhile (\<lambda>c. c \<noteq> sep) s)"

text \<open>\<^verbatim>\<open>s[1:-1]\<close>, a slice: it never raises.\<close>

definition slice_1_m1 :: "string \<Rightarrow> string" where
  "slice_1_m1 s = drop 1 (take (length s - 1) s)"

text \<open>\<^verbatim>\<open>sep.join(xs)\<close>.\<close>

fun join :: "string \<Rightarrow> string list \<Rightarrow> string" where
  "join sep [] = []"
| "join sep [x] = x"
| "join sep (x # y # ys) = x @ sep @ join sep (y # ys)"

text \<open>\<^verbatim>\<open>text.splitlines()\<close>: the first argument is the line read so far. A line break
  ends the line; CR LF counts as one break; no empty line is added after a final break.\<close>

fun splitlines_from :: "string \<Rightarrow> string \<Rightarrow> string list" where
  "splitlines_from acc [] = (if acc = [] then [] else [acc])"
| "splitlines_from acc [c] = (if is_break c then [acc] else [acc @ [c]])"
| "splitlines_from acc (c # d # cs) =
     (if c = CHR 0x0D \<and> d = CHR 0x0A then acc # splitlines_from [] cs
      else if is_break c then acc # splitlines_from [] (d # cs)
      else splitlines_from (acc @ [c]) (d # cs))"

definition splitlines :: "string \<Rightarrow> string list" where
  "splitlines text = splitlines_from [] text"

text \<open>Truth value of an optional string: \<^verbatim>\<open>None\<close> and \<^verbatim>\<open>""\<close> are false.\<close>

fun truthy :: "string option \<Rightarrow> bool" where
  "truthy None = False"
| "truthy (Some s) = (s \<noteq> [])"

text \<open>What an f-string prints for an optional string.\<close>

fun py_str :: "string option \<Rightarrow> string" where
  "py_str None = ''None''"
| "py_str (Some s) = s"

section \<open>Color conversion helpers\<close>

text \<open>\<^verbatim>\<open>ini_to_tk(color)\<close>: 0xAARRGGBB to #RRGGBB.\<close>

definition ini_to_tk :: "string option \<Rightarrow> string" where
  "ini_to_tk color =
     (case color of
        None \<Rightarrow> ''#FFFFFF''
      | Some c \<Rightarrow>
          if c = [] \<or> \<not> startswith c ''0x'' \<or> length c \<noteq> 10 then ''#FFFFFF''
          else ''#'' @ lower (drop 4 c))"

text \<open>\<^verbatim>\<open>tk_to_ini(hexcolor, old_ini_color)\<close>: #RRGGBB to 0xAARRGGBB. With an empty
  \<^verbatim>\<open>hexcolor\<close> the old value is returned as it is, \<^verbatim>\<open>None\<close> included.\<close>

definition tk_to_ini :: "string option \<Rightarrow> string option \<Rightarrow> string option" where
  "tk_to_ini hexcolor old_ini_color =
     (if \<not> truthy hexcolor then old_ini_color
      else
        let hexcolor' = filter (\<lambda>c. c \<noteq> CHR ''#'') (the hexcolor);
            alpha = (case old_ini_color of
                       None \<Rightarrow> ''FF''
                     | Some old \<Rightarrow>
                         if old \<noteq> [] \<and> startswith old ''0x'' then take 2 (drop 2 old)
                         else ''FF'')
        in Some (''0x'' @ alpha @ upper hexcolor'))"

section \<open>Parsing\<close>

text \<open>One value of the \<^verbatim>\<open>skills\<close> dictionary: the dictionary with the keys
  \<^verbatim>\<open>"comment"\<close>, \<^verbatim>\<open>"image"\<close> and \<^verbatim>\<open>"color"\<close>.\<close>

record entry =
  ent_comment :: "string option"
  ent_image :: "string option"
  ent_color :: "string option"

text \<open>The \<^verbatim>\<open>skills\<close> dictionary, in insertion order. A new key is added at the end; an
  item assignment changes the value of the key where it stands.\<close>

type_synonym skills = "(string \<times> entry) list"

definition new_entry :: entry where
  "new_entry = \<lparr>ent_comment = None, ent_image = None, ent_color = None\<rparr>"

fun modify :: "string \<Rightarrow> (entry \<Rightarrow> entry) \<Rightarrow> skills \<Rightarrow> skills" where
  "modify k f [] = []"
| "modify k f ((k', e) # sk) =
     (if k' = k then (k', f e) # sk else (k', e) # modify k f sk)"

definition setdefault :: "string \<Rightarrow> skills \<Rightarrow> skills" where
  "setdefault k sk = (if map_of sk k = None then sk @ [(k, new_entry)] else sk)"

record pstate =
  skills :: skills
  "section" :: "string option"
  last_comment :: "string option"

definition is_header :: "string \<Rightarrow> bool" where
  "is_header stripped \<longleftrightarrow> startswith stripped ''['' \<and> endswith stripped '']''"

definition CELL_COLOR :: string where
  "CELL_COLOR = ''LGP::CELL_COLOR''"

definition CELL_IMAGE :: string where
  "CELL_IMAGE = ''LGP::CELL_IMAGE''"

text \<open>The body of the loop of \<^verbatim>\<open>parse_ini\<close> on a key line whose key is a skill key.\<close>

definition parse_skill :: "pstate \<Rightarrow> string \<Rightarrow> string \<Rightarrow> pstate" where
  "parse_skill st key val =
     (let st1 = st\<lparr>skills := setdefault key (skills st)\<rparr>;
          st2 = (if section st1 = Some CELL_COLOR then
                   let st' = st1\<lparr>skills := modify key (\<lambda>e. e\<lparr>ent_color := Some val\<rparr>) (skills st1)\<rparr>
                   in if truthy (last_comment st') then
                        st'\<lparr>skills := modify key (\<lambda>e. e\<lparr>ent_comment := last_comment st'\<rparr>) (skills st'),
                            last_comment := None\<rparr>
                      else st'
                 else st1)
      in if section st2 = Some CELL_IMAGE then
           st2\<lparr>skills := modify key (\<lambda>e. e\<lparr>ent_image := Some val\<rparr>) (skills st2)\<rparr>
         else st2)"

text \<open>The body of the loop of \<^verbatim>\<open>parse_ini\<close>.\<close>

definition parse_line :: "pstate \<Rightarrow> string \<Rightarrow> pstate" where
  "parse_line st line =
     (let stripped = strip line in
      if is_header stripped then st\<lparr>section := Some (slice_1_m1 stripped), last_comment := None\<rparr>
      else if startswith stripped '';'' then st\<lparr>last_comment := Some line\<rparr>
      else if CHR ''='' \<in> set stripped then
        let key = strip (split_before (CHR ''='') stripped);
            val = strip (split_after (CHR ''='') stripped)
        in if startswith key ''Skill'' \<and> length key = 9 then parse_skill st key val else st
      else st)"

definition init_state :: pstate where
  "init_state = \<lparr>skills = [], section = None, last_comment = None\<rparr>"

definition parse_ini :: "string \<Rightarrow> string list \<times> skills" where
  "parse_ini text =
     (let lines = splitlines text in (lines, skills (foldl parse_line init_state lines)))"

text \<open>\<^verbatim>\<open>apply_filename_rules(skills)\<close> changes the values in place; the model returns the
  changed dictionary.\<close>

definition infer_image :: "string \<Rightarrow> entry \<Rightarrow> entry" where
  "infer_image sid data =
     (if \<not> truthy (ent_image data) then
        (case ent_comment data of
           Some comment \<Rightarrow>
             if comment \<noteq> [] \<and> CHR ''#'' \<in> set comment then
               data\<lparr>ent_image := Some (lower (strip (split_after (CHR ''#'') comment)) @ ''.bmp'')\<rparr>
             else data\<lparr>ent_image := Some (lower sid @ ''.bmp'')\<rparr>
         | None \<Rightarrow> data\<lparr>ent_image := Some (lower sid @ ''.bmp'')\<rparr>)
      else data)"

definition apply_filename_rules :: "skills \<Rightarrow> skills" where
  "apply_filename_rules sk = map (\<lambda>(sid, data). (sid, infer_image sid data)) sk"

text \<open>What the interactive session does on loading a file: \<^verbatim>\<open>parse_ini\<close>, then
  \<^verbatim>\<open>apply_filename_rules\<close> on the dictionary.\<close>

definition parse_and_infer :: "string \<Rightarrow> string list \<times> skills" where
  "parse_and_infer text = (case parse_ini text of (lines, sk) \<Rightarrow> (lines, apply_filename_rules sk))"

section \<open>Rebuilding\<close>

definition skill_ids :: "skills \<Rightarrow> string list" where
  "skill_ids sk = sort (map fst sk)"

text \<open>The two \<^verbatim>\<open>for sid in skill_ids\<close> loops. \<^verbatim>\<open>skills[sid]\<close> cannot raise, since
  \<^verbatim>\<open>sid\<close> is a key of the dictionary; the model leaves the lines as they are there.\<close>

definition emit_image :: "skills \<Rightarrow> string list \<Rightarrow> string \<Rightarrow> string list" where
  "emit_image sk new_lines sid =
     (case map_of sk sid of
        None \<Rightarrow> new_lines
      | Some data \<Rightarrow>
          (if truthy (ent_comment data) then new_lines @ [the (ent_comment data)] else new_lines)
            @ [sid @ '' = '' @ py_str (ent_image data)] @ [''''])"

definition emit_color :: "skills \<Rightarrow> string list \<Rightarrow> string \<Rightarrow> string list" where
  "emit_color sk new_lines sid =
     (case map_of sk sid of
        None \<Rightarrow> new_lines
      | Some data \<Rightarrow>
          if truthy (ent_color data) then
            (if truthy (ent_comment data) then new_lines @ [the (ent_comment data)] else new_lines)
              @ [sid @ ''='' @ the (ent_color data)] @ ['''']
          else new_lines)"

text \<open>The inner \<^verbatim>\<open>while\<close> loops: skip to the next header, or to the end.\<close>

definition skip_section :: "string list \<Rightarrow> string list" where
  "skip_section ls = dropWhile (\<lambda>l. \<not> is_header (strip l)) ls"

lemma length_skip_section: "length (skip_section ls) \<le> length ls"
  by (simp add: skip_section_def length_dropWhile_le)

text \<open>The outer \<^verbatim>\<open>while i < n\<close> loop: the first argument is \<^verbatim>\<open>lines[i:]\<close>.\<close>

function rebuild_loop :: "string list \<Rightarrow> skills \<Rightarrow> string list \<Rightarrow> string list" where
  "rebuild_loop [] sk new_lines = new_lines"
| "rebuild_loop (line # rest) sk new_lines =
     (let stripped = strip line in
      if is_header stripped then
        let section = slice_1_m1 stripped in
        if section = CELL_IMAGE then
          rebuild_loop (skip_section rest) sk (foldl (emit_image sk) (new_lines @ [line]) (skill_ids sk))
        else if section = CELL_COLOR then
          rebuild_loop (skip_section rest) sk (foldl (emit_color sk) (new_lines @ [line]) (skill_ids sk))
        else rebuild_loop rest sk (new_lines @ [line])
      else rebuild_loop rest sk (new_lines @ [line]))"
  by pat_completeness auto
termination
  by (relation "measure (\<lambda>(ls, sk, nl). length ls)")
     (auto simp: length_skip_section le_imp_less_Suc)

definition rebuild_ini :: "string list \<Rightarrow> skills \<Rightarrow> string" where
  "rebuild_ini lines sk = join [CHR 0x0A] (rebuild_loop lines sk []) @ [CHR 0x0A]"


section \<open>Notions used to state the properties\<close>

text \<open>The three conditions under which \<^verbatim>\<open>rgb_to_ini\<close> keeps the old alpha byte, and under
  which \<^verbatim>\<open>ini_to_tk\<close> converts instead of falling back: a value that is there, starts
  with \<^verbatim>\<open>0x\<close> and has 10 characters.\<close>

definition has_stored_shape :: "string option \<Rightarrow> bool" where
  "has_stored_shape color \<longleftrightarrow>
     (case color of None \<Rightarrow> False | Some c \<Rightarrow> c \<noteq> [] \<and> startswith c ''0x'' \<and> length c = 10)"

text \<open>A stored color of the file format: \<^verbatim>\<open>0x\<close> and 8 hexadecimal digits of either
  case.\<close>

definition is_hex_digit :: "char \<Rightarrow> bool" where
  "is_hex_digit c \<longleftrightarrow> c \<in> set ''0123456789abcdefABCDEF''"

definition valid_stored :: "string \<Rightarrow> bool" where
  "valid_stored c \<longleftrightarrow> length c = 10 \<and> take 2 c = ''0x'' \<and> list_all is_hex_digit (drop 2 c)"

text \<open>What \<^verbatim>\<open>parse_ini\<close> takes a line for, by the conditions of its loop body in their
  order: a section header with its name, a comment, a key line with a skill key and its
  value, or anything else.\<close>

datatype line_kind = Header string | Comment | Skill string string | Other

definition kind :: "string \<Rightarrow> line_kind" where
  "kind line =
     (let stripped = strip line in
      if is_header stripped then Header (slice_1_m1 stripped)
      else if startswith stripped '';'' then Comment
      else if CHR ''='' \<in> set stripped then
        let key = strip (split_before (CHR ''='') stripped);
            val = strip (split_after (CHR ''='') stripped)
        in if startswith key ''Skill'' \<and> length key = 9 then Skill key val else Other
      else Other)"

text \<open>The lines a rebuilt managed section gets after its header.\<close>

definition image_block :: "skills \<Rightarrow> string list" where
  "image_block sk = foldl (emit_image sk) [] (skill_ids sk)"

definition color_block :: "skills \<Rightarrow> string list" where
  "color_block sk = foldl (emit_color sk) [] (skill_ids sk)"

definition block_after :: "skills \<Rightarrow> string \<Rightarrow> string list" where
  "block_after sk line =
     (if kind line = Header CELL_IMAGE then image_block sk
      else if kind line = Header CELL_COLOR then color_block sk
      else [])"

text \<open>The raw lines outside the bodies of the two managed sections, in their order. The
  body of a managed section is what follows its header up to the next header or the end;
  the flag tells whether the line is in such a body.\<close>

fun outside_lines :: "bool \<Rightarrow> string list \<Rightarrow> string list" where
  "outside_lines inside [] = []"
| "outside_lines inside (l # ls) =
     (case kind l of
        Header s \<Rightarrow> l # outside_lines (s = CELL_IMAGE \<or> s = CELL_COLOR) ls
      | _ \<Rightarrow> if inside then outside_lines inside ls else l # outside_lines inside ls)"

text \<open>The number of newline characters a text ends with.\<close>

definition trailing_newlines :: "string \<Rightarrow> nat" where
  "trailing_newlines s = length (takeWhile (\<lambda>c. c = CHR 0x0A) (rev s))"

text \<open>The values the key lines with a skill key give in the sections named \<open>S\<close>, in
  document order; the second argument is the section the first line is in.\<close>

fun assigns :: "string \<Rightarrow> string option \<Rightarrow> string list \<Rightarrow> (string \<times> string) list" where
  "assigns S cur [] = []"
| "assigns S cur (l # ls) =
     (case kind l of
        Header s \<Rightarrow> assigns S (Some s) ls
      | Skill k v \<Rightarrow> (if cur = Some S then [(k, v)] else []) @ assigns S cur ls
      | _ \<Rightarrow> assigns S cur ls)"


text \<open>A field of the entry of a key; \<^verbatim>\<open>None\<close> also when the key has no entry.\<close>

definition field :: "(entry \<Rightarrow> string option) \<Rightarrow> skills \<Rightarrow> string \<Rightarrow> string option" where
  "field f sk k = (case map_of sk k of None \<Rightarrow> None | Some e \<Rightarrow> f e)"

text \<open>What the parser asks of a skill key: it is stripped, has no equals sign, starts with
  \<^verbatim>\<open>Skill\<close> and has 9 characters.\<close>

definition key_ok :: "string \<Rightarrow> bool" where
  "key_ok k \<longleftrightarrow> strip k = k \<and> CHR ''='' \<notin> set k \<and> startswith k ''Skill'' \<and> length k = 9"

text \<open>A string without a line break, as every line that \<^verbatim>\<open>splitlines\<close> returns.\<close>

definition break_free :: "string \<Rightarrow> bool" where
  "break_free s \<longleftrightarrow> list_all (\<lambda>c. \<not> is_break c) s"

text \<open>A dictionary as \<^verbatim>\<open>parse_ini\<close> and \<^verbatim>\<open>apply_filename_rules\<close> leave it for a text
  whose color sections give no empty value: the keys are skill keys, each one once; every
  entry has an image; the values are stripped and not empty; a comment is a comment line
  and comes with a color; nothing has a line break.\<close>

definition tidy_entry :: "entry \<Rightarrow> bool" where
  "tidy_entry e \<longleftrightarrow>
     (case ent_image e of None \<Rightarrow> False | Some v \<Rightarrow> v \<noteq> [] \<and> strip v = v \<and> break_free v) \<and>
     (case ent_color e of None \<Rightarrow> True | Some v \<Rightarrow> v \<noteq> [] \<and> strip v = v \<and> break_free v) \<and>
     (case ent_comment e of
        None \<Rightarrow> True
      | Some c \<Rightarrow> kind c = Comment \<and> break_free c \<and> ent_color e \<noteq> None)"

definition tidy :: "skills \<Rightarrow> bool" where
  "tidy sk \<longleftrightarrow>
     distinct (map fst sk) \<and> list_all (\<lambda>(k, e). key_ok k \<and> break_free k \<and> tidy_entry e) sk"

text \<open>The dictionary of a second parse compared with the dictionary \<open>sk\<close> the text was
  rebuilt from: it has no other key and no other field value; it has only gained keys and
  values since an earlier state; it has every image; it has every color with its
  comment.\<close>

definition agrees :: "skills \<Rightarrow> skills \<Rightarrow> bool" where
  "agrees sk2 sk \<longleftrightarrow>
     list_all (\<lambda>k. map_of sk k \<noteq> None
        \<and> (field ent_image sk2 k = None \<or> field ent_image sk2 k = field ent_image sk k)
        \<and> (field ent_color sk2 k = None \<or> field ent_color sk2 k = field ent_color sk k)
        \<and> (field ent_comment sk2 k = None \<or> field ent_comment sk2 k = field ent_comment sk k))
       (map fst sk2)"

definition grows :: "skills \<Rightarrow> skills \<Rightarrow> bool" where
  "grows sk2 sk2' \<longleftrightarrow>
     list_all (\<lambda>k. map_of sk2' k \<noteq> None
        \<and> (field ent_image sk2 k = None \<or> field ent_image sk2' k \<noteq> None)
        \<and> (field ent_color sk2 k = None \<or> field ent_color sk2' k \<noteq> None)
        \<and> (field ent_comment sk2 k = None \<or> field ent_comment sk2' k \<noteq> None))
       (map fst sk2)"

definition has_images :: "skills \<Rightarrow> skills \<Rightarrow> bool" where
  "has_images sk2 sk \<longleftrightarrow>
     list_all (\<lambda>k. map_of sk2 k \<noteq> None \<and> field ent_image sk2 k = field ent_image sk k) (map fst sk)"

definition has_colors :: "skills \<Rightarrow> skills \<Rightarrow> bool" where
  "has_colors sk2 sk \<longleftrightarrow>
     list_all (\<lambda>k. field ent_color sk k = None
        \<or> (map_of sk2 k \<noteq> None \<and> field ent_color sk2 k = field ent_color sk k
            \<and> field ent_comment sk2 k = field ent_comment sk k))
       (map fst sk)"

text \<open>Lines in which a header of a managed section is followed by a header or by nothing,
  as the lines outside the managed bodies are; the flag tells whether the line before was
  such a header.\<close>

fun chained :: "bool \<Rightarrow> string list \<Rightarrow> bool" where
  "chained after [] = True"
| "chained after (l # ls) =
     (case kind l of
        Header s \<Rightarrow> chained (s = CELL_IMAGE \<or> s = CELL_COLOR) ls
      | _ \<Rightarrow> \<not> after \<and> chained False ls)"

text \<open>What the parser keeps true of its state on lines without a line break, when the
  skill lines of the color sections give no empty value.\<close>

definition sound :: "pstate \<Rightarrow> bool" where
  "sound st \<longleftrightarrow>
     distinct (map fst (skills st))
     \<and> (\<forall>k. map_of (skills st) k \<noteq> None \<longrightarrow> key_ok k \<and> break_free k)
     \<and> (\<forall>k v. field ent_image (skills st) k = Some v \<longrightarrow> strip v = v \<and> break_free v)
     \<and> (\<forall>k v. field ent_color (skills st) k = Some v \<longrightarrow> v \<noteq> [] \<and> strip v = v \<and> break_free v)
     \<and> (\<forall>k c. field ent_comment (skills st) k = Some c \<longrightarrow>
            kind c = Comment \<and> break_free c \<and> field ent_color (skills st) k \<noteq> None)
     \<and> (\<forall>c. last_comment st = Some c \<longrightarrow> kind c = Comment \<and> break_free c)"

text \<open>A well-formed text: every skill line of a color section gives a value. (The file
  format asks for more, a color of the form \<^verbatim>\<open>0xAARRGGBB\<close>.)\<close>

definition well_formed :: "string \<Rightarrow> bool" where
  "well_formed text \<longleftrightarrow>
     list_all (\<lambda>(k, v). v \<noteq> []) (assigns CELL_COLOR None (splitlines text))"

text \<open>Loading a text and saving it again: \<^verbatim>\<open>parse_ini\<close>, \<^verbatim>\<open>apply_filename_rules\<close> and
  \<^verbatim>\<open>rebuild_ini\<close>, as \<^verbatim>\<open>load_ini\<close> and \<^verbatim>\<open>save_ini\<close> call them.\<close>

definition round_trip :: "string \<Rightarrow> string" where
  "round_trip text = (case parse_and_infer text of (lines, sk) \<Rightarrow> rebuild_ini lines sk)"

text \<open>A dictionary whose rebuilt sections can be read back entry by entry: the keys are
  skill keys, each one once; the values are stripped, as the parser delivers them; a
  comment that is written is a comment line.\<close>

definition readable_entry :: "entry \<Rightarrow> bool" where
  "readable_entry e \<longleftrightarrow>
     (case ent_image e of None \<Rightarrow> True | Some v \<Rightarrow> strip v = v) \<and>
     (case ent_color e of None \<Rightarrow> True | Some v \<Rightarrow> strip v = v) \<and>
     (case ent_comment e of None \<Rightarrow> True | Some c \<Rightarrow> c = [] \<or> kind c = Comment)"

definition readable :: "skills \<Rightarrow> bool" where
  "readable sk \<longleftrightarrow>
     distinct (map fst sk) \<and> list_all (\<lambda>(k, e). key_ok k \<and> readable_entry e) sk"

text \<open>Two texts used as sample data: a color section with a commented entry followed by
  an empty image section, once with a color and once with an empty value.\<close>

definition sample_text :: string where
  "sample_text = ''[LGP::CELL_COLOR]'' @ [CHR 0x0A] @ ''; #Fire Bolt'' @ [CHR 0x0A]
     @ ''Skill0001=0xFF112233'' @ [CHR 0x0A] @ ''[LGP::CELL_IMAGE]'' @ [CHR 0x0A]"

definition empty_color_text :: string where
  "empty_color_text = ''[LGP::CELL_COLOR]'' @ [CHR 0x0A] @ ''; #Fire Bolt'' @ [CHR 0x0A]
     @ ''Skill0001='' @ [CHR 0x0A] @ ''[LGP::CELL_IMAGE]'' @ [CHR 0x0A]"

text \<open>Two entries used as sample data.\<close>

definition e1 :: entry where
  "e1 = \<lparr>ent_comment = Some ''; #Fireball'', ent_image = Some ''fireball.bmp'',
          ent_color = Some ''0xFFFF0000''\<rparr>"

definition e2 :: entry where
  "e2 = \<lparr>ent_comment = None, ent_image = Some ''b.bmp'', ent_color = None\<rparr>"

text \<open>A text with keys given more than once, and a parser state in the color section with
  a pending comment, used as sample data.\<close>

definition dup_text :: string where
  "dup_text = ''[LGP::CELL_COLOR]'' @ [CHR 0x0A] @ ''Skill0001=0xFF000001'' @ [CHR 0x0A]
     @ ''Skill0002=0xFF000002'' @ [CHR 0x0A] @ ''Skill0001=0xFF000003'' @ [CHR 0x0A]
     @ ''[LGP::CELL_IMAGE]'' @ [CHR 0x0A] @ ''Skill0001 = a.bmp'' @ [CHR 0x0A]
     @ ''Skill0001 = b.bmp'' @ [CHR 0x0A] @ ''Skill0002 = c.bmp'' @ [CHR 0x0A]"

definition st_color :: pstate where
  "st_color = \<lparr>skills = [], section = Some CELL_COLOR, last_comment = Some ''; old''\<rparr>"

section \<open>The loop bodies by kind of line\<close>


lemma parse_line_kind:
  "parse_line st l =
     (case kind l of
        Header s \<Rightarrow> st\<lparr>section := Some s, last_comment := None\<rparr>
      | Comment \<Rightarrow> st\<lparr>last_comment := Some l\<rparr>
      | Skill k v \<Rightarrow> parse_skill st k v
      | Other \<Rightarrow> st)"
  by (simp add: parse_line_def kind_def Let_def)

lemma is_header_kind: "is_header (strip l) \<longleftrightarrow> (\<exists>s. kind l = Header s)"
  by (simp add: kind_def Let_def)

lemma kind_Header_D: "kind l = Header s \<Longrightarrow> is_header (strip l) \<and> slice_1_m1 (strip l) = s"
  by (simp add: kind_def Let_def split: if_splits)

lemma emit_image_acc: "emit_image sk nl sid = nl @ emit_image sk [] sid"
  by (simp add: emit_image_def split: option.splits)

lemma emit_color_acc: "emit_color sk nl sid = nl @ emit_color sk [] sid"
  by (simp add: emit_color_def split: option.splits)

lemma foldl_emit_image:
  "foldl (emit_image sk) nl ids = nl @ concat (map (emit_image sk []) ids)"
proof (induction ids arbitrary: nl)
  case Nil
  show ?case by simp
next
  case (Cons sid ids)
  show ?case
    by (simp add: Cons.IH emit_image_acc [of sk nl sid])
qed

lemma foldl_emit_color:
  "foldl (emit_color sk) nl ids = nl @ concat (map (emit_color sk []) ids)"
proof (induction ids arbitrary: nl)
  case Nil
  show ?case by simp
next
  case (Cons sid ids)
  show ?case
    by (simp add: Cons.IH emit_color_acc [of sk nl sid])
qed

lemma rebuild_loop_Cons:
  "rebuild_loop (l # rest) sk nl =
     (case kind l of
        Header s \<Rightarrow>
          if s = CELL_IMAGE then rebuild_loop (skip_section rest) sk (nl @ l # image_block sk)
          else if s = CELL_COLOR then rebuild_loop (skip_section rest) sk (nl @ l # color_block sk)
          else rebuild_loop rest sk (nl @ [l])
      | _ \<Rightarrow> rebuild_loop rest sk (nl @ [l]))"
  by (simp add: kind_def Let_def image_block_def color_block_def
      foldl_emit_image [of sk "nl @ [l]"] foldl_emit_image [of sk "[]"]
      foldl_emit_color [of sk "nl @ [l]"] foldl_emit_color [of sk "[]"])

lemma skip_section_Cons:
  "skip_section (l # ls) = (case kind l of Header s \<Rightarrow> l # ls | _ \<Rightarrow> skip_section ls)"
  by (simp add: skip_section_def kind_def Let_def)

lemma outside_skip: "outside_lines True ls = outside_lines False (skip_section ls)"
proof (induction ls)
  case Nil
  show ?case by (simp add: skip_section_def)
next
  case (Cons l ls)
  then show ?case by (cases "kind l") (simp_all add: skip_section_Cons)
qed

lemma rebuild_loop_outside:
  "rebuild_loop ls sk nl = nl @ concat (map (\<lambda>l. l # block_after sk l) (outside_lines False ls))"
proof (induction ls sk nl rule: rebuild_loop.induct)
  case (1 sk nl)
  show ?case by simp
next
  case (2 line rest sk nl)
  show ?case
  proof (cases "kind line")
    case (Header s)
    note kh = kind_Header_D [OF Header]
    show ?thesis
    proof (cases "s = CELL_IMAGE")
      case True
      have "rebuild_loop (line # rest) sk nl
            = rebuild_loop (skip_section rest) sk (nl @ line # image_block sk)"
        using Header True by (simp add: rebuild_loop_Cons del: rebuild_loop.simps)
      also have "\<dots> = (nl @ line # image_block sk)
            @ concat (map (\<lambda>l. l # block_after sk l) (outside_lines False (skip_section rest)))"
        using "2.IH"(1) [OF refl _ refl] kh True
        by (simp add: image_block_def foldl_emit_image [of sk "nl @ [line]"] foldl_emit_image [of sk "[]"])
      finally show ?thesis
        using Header True by (simp add: outside_skip block_after_def)
    next
      case nI: False
      show ?thesis
      proof (cases "s = CELL_COLOR")
        case True
        have "rebuild_loop (line # rest) sk nl
              = rebuild_loop (skip_section rest) sk (nl @ line # color_block sk)"
          using Header True nI by (simp add: rebuild_loop_Cons del: rebuild_loop.simps)
        also have "\<dots> = (nl @ line # color_block sk)
              @ concat (map (\<lambda>l. l # block_after sk l) (outside_lines False (skip_section rest)))"
          using "2.IH"(2) [OF refl _ refl] kh True nI
          by (simp add: color_block_def foldl_emit_color [of sk "nl @ [line]"] foldl_emit_color [of sk "[]"])
        finally show ?thesis
          using Header True nI by (simp add: outside_skip block_after_def)
      next
        case False
        have "rebuild_loop (line # rest) sk nl = rebuild_loop rest sk (nl @ [line])"
          using Header False nI by (simp add: rebuild_loop_Cons del: rebuild_loop.simps)
        also have "\<dots> = (nl @ [line])
              @ concat (map (\<lambda>l. l # block_after sk l) (outside_lines False rest))"
          using "2.IH"(3) [OF refl _ refl] kh False nI by simp
        finally show ?thesis
          using Header False nI by (simp add: block_after_def)
      qed
    qed
  next
    case Comment
    then have nh: "\<not> is_header (strip line)" by (simp add: is_header_kind)
    show ?thesis
      using "2.IH"(4) [OF refl nh] Comment by (simp add: rebuild_loop_Cons block_after_def del: rebuild_loop.simps)
  next
    case (Skill k v)
    then have nh: "\<not> is_header (strip line)" by (simp add: is_header_kind)
    show ?thesis
      using "2.IH"(4) [OF refl nh] Skill by (simp add: rebuild_loop_Cons block_after_def del: rebuild_loop.simps)
  next
    case Other
    then have nh: "\<not> is_header (strip line)" by (simp add: is_header_kind)
    show ?thesis
      using "2.IH"(4) [OF refl nh] Other by (simp add: rebuild_loop_Cons block_after_def del: rebuild_loop.simps)
  qed
qed



section \<open>The color codec\<close>

lemma startswith_0x: "startswith c ''0x'' \<longleftrightarrow> take 2 c = ''0x''"
  by (simp add: startswith_def numeral_2_eq_2)

lemma map_of_zip_D: "map_of (zip xs ys) c = Some d \<Longrightarrow> c \<in> set xs \<and> d \<in> set ys"
  by (meson in_set_zipE map_of_SomeD)

lemma map_of_zip_swap:
  "length xs = length ys \<Longrightarrow> distinct ys \<Longrightarrow> map_of (zip xs ys) c = Some d \<Longrightarrow>
     map_of (zip ys xs) d = Some c"
proof (induction xs ys rule: list_induct2)
  case Nil
  then show ?case by simp
next
  case (Cons x xs y ys)
  show ?case
  proof (cases "c = x")
    case True
    with Cons.prems(2) show ?thesis by simp
  next
    case False
    with Cons.prems(2) have m: "map_of (zip xs ys) c = Some d" by simp
    from map_of_zip_D [OF m] Cons.prems(1) have "d \<noteq> y" by auto
    moreover from Cons.IH [OF _ m] Cons.prems(1) have "map_of (zip ys xs) d = Some c" by simp
    ultimately show ?thesis by simp
  qed
qed

lemma letters_facts:
  "length capital_letters = length small_letters" "distinct small_letters"
  "set capital_letters \<inter> set small_letters = {}"
  "\<forall>c \<in> set capital_letters \<union> set small_letters. \<not> is_space c \<and> \<not> is_break c"
  "CHR ''#'' \<notin> set capital_letters \<union> set small_letters"
  "CHR 0xDF \<notin> set capital_letters \<union> set small_letters"
  by (simp_all add: capital_letters_def small_letters_def is_space_def is_break_def)

lemma upper_char_capital: "c \<in> set capital_letters \<Longrightarrow> upper_char c = c"
proof -
  assume "c \<in> set capital_letters"
  with letters_facts(3) have "c \<notin> set small_letters" by blast
  then have "map_of (zip small_letters capital_letters) c = None"
    using letters_facts(1) by (simp add: map_of_zip_is_None)
  then show ?thesis by (simp add: upper_char_def)
qed

lemma lower_char_cases:
  "c \<notin> set capital_letters \<and> lower_char c = c
   \<or> c \<in> set capital_letters \<and> lower_char c \<in> set small_letters
       \<and> upper_char (lower_char c) = c"
proof (cases "map_of (zip capital_letters small_letters) c")
  case None
  then have "c \<notin> set capital_letters"
    using letters_facts(1) by (simp add: map_of_zip_is_None)
  with None show ?thesis by (simp add: lower_char_def)
next
  case (Some d)
  have l: "lower_char c = d" using Some by (simp add: lower_char_def)
  have "map_of (zip small_letters capital_letters) d = Some c"
    using letters_facts(1,2) Some by (rule map_of_zip_swap)
  then have "upper_char d = c" by (simp add: upper_char_def)
  with map_of_zip_D [OF Some] l show ?thesis by simp
qed

lemma upper_lower_char: "upper_char (lower_char c) = upper_char c"
  using lower_char_cases [of c] upper_char_capital [of c] by auto

lemma lower_char_sharp_s: "lower_char c = CHR 0xDF \<longleftrightarrow> c = CHR 0xDF"
  using lower_char_cases [of c] letters_facts(6) by auto

lemma lower_char_hash: "lower_char c = CHR ''#'' \<longleftrightarrow> c = CHR ''#''"
  using lower_char_cases [of c] letters_facts(5) by auto

lemma upper_lower: "upper (lower s) = upper s"
  by (induction s) (simp_all add: upper_def lower_def upper_lower_char lower_char_sharp_s)

lemma hex_not_hash: "is_hex_digit c \<Longrightarrow> c \<noteq> CHR ''#''"
  by (auto simp: is_hex_digit_def)

lemma filter_hash_lower:
  "list_all is_hex_digit s \<Longrightarrow> filter (\<lambda>c. c \<noteq> CHR ''#'') (lower s) = lower s"
  by (induction s) (auto simp: lower_def lower_char_hash hex_not_hash)

text \<open>
  Claim C3, as stated: for every valid stored color \<open>c\<close> (\<^verbatim>\<open>0x\<close> and 8 hexadecimal digits
  of either case), \<^verbatim>\<open>tk_to_ini(ini_to_tk(c), c) == c\<close>. It fails for a color with a
  lower-case digit in its RGB part: the digits come back in upper case.
\<close>

theorem codec_round_trip_counterexample:
  "valid_stored ''0xFFaabbcc'' \<and>
   tk_to_ini (Some (ini_to_tk (Some ''0xFFaabbcc''))) (Some ''0xFFaabbcc'') = Some ''0xFFAABBCC''"
  by code_simp

text \<open>
  Claim C3, amended: for every valid stored color \<open>c\<close>, \<^verbatim>\<open>tk_to_ini(ini_to_tk(c), c)\<close> is
  \<open>c\<close> with its six RGB digits in upper case, the prefix and the alpha byte as they are in
  \<open>c\<close>; it is \<open>c\<close> itself when the RGB digits of \<open>c\<close> have no lower-case letter.
\<close>

theorem codec_round_trip:
  "valid_stored c \<Longrightarrow>
     tk_to_ini (Some (ini_to_tk (Some c))) (Some c) = Some (take 4 c @ upper (drop 4 c))
     \<and> (upper (drop 4 c) = drop 4 c \<longrightarrow> tk_to_ini (Some (ini_to_tk (Some c))) (Some c) = Some c)"
proof -
  assume v: "valid_stored c"
  then have len: "length c = 10" and pre: "take 2 c = ''0x''"
    and hex: "list_all is_hex_digit (drop 2 c)"
    by (simp_all add: valid_stored_def)
  have "drop 4 c = drop 2 (drop 2 c)" by simp
  then have "set (drop 4 c) \<subseteq> set (drop 2 c)"
    using set_drop_subset [of 2 "drop 2 c"] by simp
  then have hex4: "list_all is_hex_digit (drop 4 c)"
    using hex by (auto simp: list_all_iff)
  have ne: "c \<noteq> []" using len by auto
  have "take (2 + 2) c = take 2 c @ take 2 (drop 2 c)" by (rule take_add)
  then have t4: "take 4 c = ''0x'' @ take 2 (drop 2 c)"
    using pre by simp
  have "ini_to_tk (Some c) = ''#'' @ lower (drop 4 c)"
    using len pre ne by (simp add: ini_to_tk_def startswith_0x)
  then have r: "tk_to_ini (Some (ini_to_tk (Some c))) (Some c) = Some (take 4 c @ upper (drop 4 c))"
    using ne pre t4 by (simp add: tk_to_ini_def startswith_0x filter_hash_lower [OF hex4] upper_lower)
  then show ?thesis by simp
qed

theorem codec_round_trip_witness:
  "valid_stored ''0x80FFA01B'' \<and> upper (drop 4 ''0x80FFA01B'') = drop 4 ''0x80FFA01B''
   \<and> tk_to_ini (Some (ini_to_tk (Some ''0x80FFA01B''))) (Some ''0x80FFA01B'') = Some ''0x80FFA01B''"
proof -
  have v: "valid_stored ''0x80FFA01B''" by code_simp
  have u: "upper (drop 4 ''0x80FFA01B'') = drop 4 ''0x80FFA01B''" by code_simp
  show ?thesis using codec_round_trip [OF v] v u by simp
qed

text \<open>
  Claim C5: for a non-empty display color, \<^verbatim>\<open>tk_to_ini\<close> takes the alpha byte from the old
  stored color exactly when that one has the prefix \<^verbatim>\<open>0x\<close> and 10 characters, and \<^verbatim>\<open>FF\<close>
  otherwise. The code asks for the prefix only, not for the length, so an old value
  \<^verbatim>\<open>0x8\<close> gives its third character as the alpha part and a stored color of 9 characters,
  where the claim gives \<^verbatim>\<open>0xFF112233\<close>.
\<close>

theorem tk_to_ini_short_old_color:
  "\<not> has_stored_shape (Some ''0x8'')
   \<and> tk_to_ini (Some ''#112233'') (Some ''0x8'') = Some ''0x8112233''"
  by code_simp

text \<open>
  Claim C6, as stated: for every input that is not a well-formed stored color, \<^verbatim>\<open>ini_to_tk\<close>
  returns the white fallback. It fails for a value of 10 characters that starts with
  \<^verbatim>\<open>0x\<close> and is no stored color: the characters after the prefix are not looked at, so
  \<^verbatim>\<open>0xGGHHIIJJ\<close> gives \<^verbatim>\<open>#hhiijj\<close>.
\<close>

theorem ini_to_tk_malformed_counterexample:
  "\<not> valid_stored ''0xGGHHIIJJ'' \<and> ini_to_tk (Some ''0xGGHHIIJJ'') = ''#hhiijj''"
  by code_simp

text \<open>
  Claim C6, amended: \<^verbatim>\<open>ini_to_tk\<close> returns the white fallback \<^verbatim>\<open>#FFFFFF\<close> for every
  input that is absent, empty, without the prefix \<^verbatim>\<open>0x\<close> or of a length other than 10;
  for every other input, a stored color or not, it returns \<^verbatim>\<open>#\<close> and the last six
  characters in lower case. It never raises: no operation of its body can raise on an
  optional string, so the model is a total function without an error value.
\<close>

theorem ini_to_tk_fallback:
  "(\<not> has_stored_shape color \<longrightarrow> ini_to_tk color = ''#FFFFFF'')
   \<and> (has_stored_shape color \<longrightarrow> ini_to_tk color = ''#'' @ lower (drop 4 (the color)))"
  by (auto simp: has_stored_shape_def ini_to_tk_def split: option.splits)

theorem ini_to_tk_fallback_witness:
  "\<not> has_stored_shape None \<and> ini_to_tk None = ''#FFFFFF''
   \<and> \<not> has_stored_shape (Some []) \<and> ini_to_tk (Some []) = ''#FFFFFF''
   \<and> \<not> has_stored_shape (Some ''0x12345'') \<and> ini_to_tk (Some ''0x12345'') = ''#FFFFFF''
   \<and> \<not> has_stored_shape (Some ''FF00112233'') \<and> ini_to_tk (Some ''FF00112233'') = ''#FFFFFF''
   \<and> has_stored_shape (Some ''0x80FFA01B'') \<and> ini_to_tk (Some ''0x80FFA01B'') = ''#ffa01b''"
proof -
  have s: "\<not> has_stored_shape None" "\<not> has_stored_shape (Some [])"
    "\<not> has_stored_shape (Some ''0x12345'')" "\<not> has_stored_shape (Some ''FF00112233'')"
    "has_stored_shape (Some ''0x80FFA01B'')"
    by code_simp+
  have l: "''#'' @ lower (drop 4 (the (Some ''0x80FFA01B''))) = ''#ffa01b''" by code_simp
  show ?thesis
    using s l ini_to_tk_fallback [of None] ini_to_tk_fallback [of "Some []"]
      ini_to_tk_fallback [of "Some ''0x12345''"] ini_to_tk_fallback [of "Some ''FF00112233''"]
      ini_to_tk_fallback [of "Some ''0x80FFA01B''"]
    by (simp only: simp_thms)
qed

section \<open>The rebuilder\<close>

lemma subseq_concat_cons: "subseq xs (concat (map (\<lambda>l. l # f l) xs))"
  by (induction xs) (simp_all add: list_emb_append2)

text \<open>
  Claim C2: for every list of raw lines and every dictionary, the raw lines outside the
  bodies of the two managed sections are lines of the rebuilt output, unchanged and in
  their order; the output is these lines, each managed header followed by its regenerated
  body, joined by newlines.
\<close>

theorem rebuild_preserves_outside_lines:
  "rebuild_loop lines sk [] = concat (map (\<lambda>l. l # block_after sk l) (outside_lines False lines))
   \<and> subseq (outside_lines False lines) (rebuild_loop lines sk [])
   \<and> rebuild_ini lines sk
       = join [CHR 0x0A] (concat (map (\<lambda>l. l # block_after sk l) (outside_lines False lines)))
         @ [CHR 0x0A]"
  by (simp add: rebuild_loop_outside [of lines sk "[]"] rebuild_ini_def subseq_concat_cons)

lemma map_of_eq_distinct:
  assumes "distinct (map fst xs)" "distinct (map fst ys)" "set xs = set ys"
  shows "map_of xs = map_of ys"
  using assms by (simp add: map_of_inject_set)

lemma skill_ids_perm:
  assumes "distinct (map fst sk)" "distinct (map fst sk')" "set sk' = set sk"
  shows "skill_ids sk' = skill_ids sk"
proof -
  have "set (map fst sk') = set (map fst sk)" using assms(3) by simp
  then have "set (sort (map fst sk')) = set (sort (map fst sk))" by simp
  moreover have "distinct (sort (map fst sk'))" "distinct (sort (map fst sk))"
    using assms(1,2) by simp_all
  ultimately show ?thesis
    unfolding skill_ids_def by (intro sorted_distinct_set_unique) simp_all
qed

section \<open>The parser on a skill line\<close>

lemma CELL_neq: "CELL_COLOR \<noteq> CELL_IMAGE"
  by (simp add: CELL_COLOR_def CELL_IMAGE_def)

lemma map_of_modify:
  "map_of (modify k f sk) k' = (if k' = k then map_option f (map_of sk k) else map_of sk k')"
  by (induction sk) auto

lemma map_fst_modify: "map fst (modify k f sk) = map fst sk"
  by (induction sk) auto

lemma map_of_setdefault:
  "map_of (setdefault k sk) k' =
     (if k' = k \<and> map_of sk k = None then Some new_entry else map_of sk k')"
  by (auto simp: setdefault_def map_add_def split: option.splits)

lemma keys_setdefault: "fst ` set (setdefault k sk) = insert k (fst ` set sk)"
proof (cases "map_of sk k")
  case None
  then show ?thesis by (simp add: setdefault_def)
next
  case (Some y)
  then have "k \<in> fst ` set sk" by (metis map_of_eq_None_iff option.distinct(1))
  then show ?thesis using Some by (auto simp: setdefault_def)
qed

lemma distinct_setdefault:
  "distinct (map fst sk) \<Longrightarrow> distinct (map fst (setdefault k sk))"
  by (auto simp: setdefault_def map_of_eq_None_iff)

lemma section_parse_skill: "section (parse_skill st k v) = section st"
  by (simp add: parse_skill_def Let_def)

lemma last_comment_parse_skill:
  "last_comment (parse_skill st k v) =
     (if section st = Some CELL_COLOR \<and> truthy (last_comment st) then None else last_comment st)"
  by (simp add: parse_skill_def Let_def)

lemma keys_parse_skill:
  "map fst (skills (parse_skill st k v)) = map fst (setdefault k (skills st))"
  by (simp add: parse_skill_def Let_def map_fst_modify)

lemma color_parse_skill:
  "field ent_color (skills (parse_skill st k v)) k' =
     (if k' = k \<and> section st = Some CELL_COLOR then Some v else field ent_color (skills st) k')"
  using CELL_neq
  by (auto simp: parse_skill_def Let_def field_def map_of_modify map_of_setdefault new_entry_def
      split: option.splits)

lemma image_parse_skill:
  "field ent_image (skills (parse_skill st k v)) k' =
     (if k' = k \<and> section st = Some CELL_IMAGE then Some v else field ent_image (skills st) k')"
  using CELL_neq
  by (auto simp: parse_skill_def Let_def field_def map_of_modify map_of_setdefault new_entry_def
      split: option.splits)

lemma comment_parse_skill:
  "field ent_comment (skills (parse_skill st k v)) k' =
     (if k' = k \<and> section st = Some CELL_COLOR \<and> truthy (last_comment st) then last_comment st
      else field ent_comment (skills st) k')"
  using CELL_neq
  by (auto simp: parse_skill_def Let_def field_def map_of_modify map_of_setdefault new_entry_def
      split: option.splits)

lemma parse_skill_outside:
  "section st \<noteq> Some CELL_COLOR \<Longrightarrow> section st \<noteq> Some CELL_IMAGE \<Longrightarrow>
     parse_skill st k v = st\<lparr>skills := setdefault k (skills st)\<rparr>"
  by (simp add: parse_skill_def Let_def)

text \<open>
  Claim C4, as stated: a key line with a skill key outside the two managed sections creates
  no entry. It fails: the entry is created before the section is looked at, so such a line
  in another section leaves an entry with no comment, no image and no color.
\<close>

theorem skill_line_outside_counterexample:
  "map_of (snd (parse_ini (''[Other]'' @ [CHR 0x0A] @ ''Skill0001=x''))) ''Skill0001'' = Some new_entry"
  by code_simp

text \<open>
  Claim C4, amended: a key line with a skill key that stands outside the two managed
  sections (in another section, or before any header) sets no field of any entry and
  changes nothing else of the parser's state; it adds an entry for its key, all fields
  empty, when the key has none yet.
\<close>

theorem skill_line_outside_managed:
  "kind l = Skill k v \<Longrightarrow> section st \<noteq> Some CELL_COLOR \<Longrightarrow> section st \<noteq> Some CELL_IMAGE \<Longrightarrow>
     parse_line st l = st\<lparr>skills := setdefault k (skills st)\<rparr>
     \<and> (\<forall>k'. map_of (skills (parse_line st l)) k' =
            (if k' = k \<and> map_of (skills st) k = None then Some new_entry
             else map_of (skills st) k'))"
  by (simp add: parse_line_kind parse_skill_outside map_of_setdefault)

theorem skill_line_outside_managed_witness:
  "kind ''Skill0001=x'' = Skill ''Skill0001'' ''x''
   \<and> section init_state \<noteq> Some CELL_COLOR \<and> section init_state \<noteq> Some CELL_IMAGE
   \<and> parse_line init_state ''Skill0001=x'' = init_state\<lparr>skills := [(''Skill0001'', new_entry)]\<rparr>"
proof -
  have k: "kind ''Skill0001=x'' = Skill ''Skill0001'' ''x''" by code_simp
  have s: "section init_state \<noteq> Some CELL_COLOR" "section init_state \<noteq> Some CELL_IMAGE"
    by (simp_all add: init_state_def)
  have d: "setdefault ''Skill0001'' (skills init_state) = [(''Skill0001'', new_entry)]"
    by (simp add: init_state_def setdefault_def)
  show ?thesis using skill_line_outside_managed [OF k s] k s d by simp
qed

section \<open>The end of the rebuilt text\<close>

lemma join_last:
  "ls \<noteq> [] \<Longrightarrow> last ls \<noteq> [] \<Longrightarrow> join sep ls \<noteq> [] \<and> last (join sep ls) = last (last ls)"
  by (induction sep ls rule: join.induct) auto

lemma trailing_newlines_snoc:
  "trailing_newlines (s @ [CHR 0x0A]) = Suc (trailing_newlines s)"
  by (simp add: trailing_newlines_def)

lemma trailing_newlines_0:
  "s = [] \<or> last s \<noteq> CHR 0x0A \<Longrightarrow> trailing_newlines s = 0"
  by (cases s rule: rev_cases) (auto simp: trailing_newlines_def)

lemma join_snoc: "ls \<noteq> [] \<Longrightarrow> join sep (ls @ [y]) = join sep ls @ sep @ y"
  by (induction sep ls rule: join.induct) simp_all

lemma trailing_newlines_pos: "s \<noteq> [] \<Longrightarrow> last s = CHR 0x0A \<Longrightarrow> 0 < trailing_newlines s"
  by (cases s rule: rev_cases) (auto simp: trailing_newlines_def)

lemma trailing_newlines_join:
  "trailing_newlines (join [CHR 0x0A] L) = 0 \<longleftrightarrow>
     L = [] \<or> L = [[]] \<or> (last L \<noteq> [] \<and> last (last L) \<noteq> CHR 0x0A)"
proof (cases "L = []")
  case True
  then show ?thesis by (simp add: trailing_newlines_def)
next
  case False
  then obtain xs y where L: "L = xs @ [y]" by (cases L rule: rev_cases) auto
  show ?thesis
  proof (cases "y = []")
    case y: True
    show ?thesis
    proof (cases "xs = []")
      case True
      with y L show ?thesis by (simp add: trailing_newlines_def)
    next
      case False
      then have "join [CHR 0x0A] L = join [CHR 0x0A] xs @ [CHR 0x0A]"
        using L y by (simp add: join_snoc)
      then have "0 < trailing_newlines (join [CHR 0x0A] L)"
        by (simp add: trailing_newlines_snoc)
      with False y L show ?thesis by simp
    qed
  next
    case y: False
    then have j: "join [CHR 0x0A] L \<noteq> []" "last (join [CHR 0x0A] L) = last y"
      using join_last [of L "[CHR 0x0A]"] L by simp_all
    show ?thesis
    proof (cases "last y = CHR 0x0A")
      case True
      with j have "0 < trailing_newlines (join [CHR 0x0A] L)"
        by (simp add: trailing_newlines_pos)
      with True y L show ?thesis by simp
    next
      case False
      with j have "trailing_newlines (join [CHR 0x0A] L) = 0"
        by (simp add: trailing_newlines_0)
      with False y L show ?thesis by simp
    qed
  qed
qed

text \<open>
  Claim C8, as stated: the rebuilt text ends with exactly one newline. It fails when the
  last of several emitted lines is blank, as after a rebuilt managed section at the end
  of the file: each entry is followed by a blank line, and the text then ends with two
  newlines.
\<close>

theorem rebuild_trailing_newline_counterexample:
  "(case parse_and_infer (''[LGP::CELL_COLOR]'' @ [CHR 0x0A] @ ''; #Fireball'' @ [CHR 0x0A]
        @ ''Skill0001=0xFFFF0000'' @ [CHR 0x0A] @ [CHR 0x0A] @ ''[LGP::CELL_IMAGE]'' @ [CHR 0x0A]
        @ ''Skill0001 = old.bmp'' @ [CHR 0x0A]) of
      (lines, sk) \<Rightarrow> trailing_newlines (rebuild_ini lines sk)) = 2"
  by code_simp

text \<open>
  Claim C8, amended: the rebuilt text is the emitted lines joined by newlines, with one
  newline added; it always ends with a newline, and with exactly one if and only if no
  line is emitted, or the only emitted line is empty, or the last emitted line is not
  empty and does not end with a newline itself.
\<close>

theorem rebuild_trailing_newline:
  "rebuild_ini lines sk = join [CHR 0x0A] (rebuild_loop lines sk []) @ [CHR 0x0A]
   \<and> rebuild_ini lines sk \<noteq> [] \<and> last (rebuild_ini lines sk) = CHR 0x0A
   \<and> 1 \<le> trailing_newlines (rebuild_ini lines sk)
   \<and> (trailing_newlines (rebuild_ini lines sk) = 1 \<longleftrightarrow>
        rebuild_loop lines sk [] = [] \<or> rebuild_loop lines sk [] = [[]]
        \<or> (last (rebuild_loop lines sk []) \<noteq> []
            \<and> last (last (rebuild_loop lines sk [])) \<noteq> CHR 0x0A))"
proof -
  let ?L = "rebuild_loop lines sk []"
  have a: "rebuild_ini lines sk = join [CHR 0x0A] ?L @ [CHR 0x0A]"
    by (simp add: rebuild_ini_def)
  have b: "trailing_newlines (rebuild_ini lines sk) = Suc (trailing_newlines (join [CHR 0x0A] ?L))"
    unfolding a by (rule trailing_newlines_snoc)
  have c: "trailing_newlines (rebuild_ini lines sk) = 1 \<longleftrightarrow>
      ?L = [] \<or> ?L = [[]] \<or> (last ?L \<noteq> [] \<and> last (last ?L) \<noteq> CHR 0x0A)"
    unfolding b using trailing_newlines_join [of ?L] by simp
  have d: "rebuild_ini lines sk \<noteq> [] \<and> last (rebuild_ini lines sk) = CHR 0x0A"
    unfolding a by simp
  have e: "1 \<le> trailing_newlines (rebuild_ini lines sk)"
    unfolding b by simp
  from a c d e show ?thesis by blast
qed

theorem rebuild_trailing_newline_witness:
  "rebuild_loop [''[General]'', ''Name=x''] [] [] = [''[General]'', ''Name=x'']
   \<and> trailing_newlines (rebuild_ini [''[General]'', ''Name=x''] []) = 1
   \<and> rebuild_loop [[]] [] [] = [[]] \<and> trailing_newlines (rebuild_ini [[]] []) = 1
   \<and> rebuild_loop [''[General]'', []] [] [] = [''[General]'', []]
   \<and> trailing_newlines (rebuild_ini [''[General]'', []] []) \<noteq> 1"
proof -
  have l: "rebuild_loop [''[General]'', ''Name=x''] [] [] = [''[General]'', ''Name=x'']"
    "rebuild_loop [[]] [] [] = [[]]"
    "rebuild_loop [''[General]'', []] [] [] = [''[General]'', []]"
    by code_simp+
  have 1: "trailing_newlines (rebuild_ini [''[General]'', ''Name=x''] []) = 1"
  proof -
    from rebuild_trailing_newline [of "[''[General]'', ''Name=x'']" "[]"]
    have i: "trailing_newlines (rebuild_ini [''[General]'', ''Name=x''] []) = 1 \<longleftrightarrow>
        rebuild_loop [''[General]'', ''Name=x''] [] [] = []
        \<or> rebuild_loop [''[General]'', ''Name=x''] [] [] = [[]]
        \<or> (last (rebuild_loop [''[General]'', ''Name=x''] [] []) \<noteq> []
            \<and> last (last (rebuild_loop [''[General]'', ''Name=x''] [] [])) \<noteq> CHR 0x0A)"
      by blast
    show ?thesis unfolding i l by simp
  qed
  have 2: "trailing_newlines (rebuild_ini [[]] []) = 1"
  proof -
    from rebuild_trailing_newline [of "[[]]" "[]"]
    have i: "trailing_newlines (rebuild_ini [[]] []) = 1 \<longleftrightarrow>
        rebuild_loop [[]] [] [] = [] \<or> rebuild_loop [[]] [] [] = [[]]
        \<or> (last (rebuild_loop [[]] [] []) \<noteq> []
            \<and> last (last (rebuild_loop [[]] [] [])) \<noteq> CHR 0x0A)"
      by blast
    show ?thesis unfolding i l by simp
  qed
  have 3: "trailing_newlines (rebuild_ini [''[General]'', []] []) \<noteq> 1"
  proof -
    from rebuild_trailing_newline [of "[''[General]'', []]" "[]"]
    have i: "trailing_newlines (rebuild_ini [''[General]'', []] []) = 1 \<longleftrightarrow>
        rebuild_loop [''[General]'', []] [] [] = []
        \<or> rebuild_loop [''[General]'', []] [] [] = [[]]
        \<or> (last (rebuild_loop [''[General]'', []] [] []) \<noteq> []
            \<and> last (last (rebuild_loop [''[General]'', []] [] [])) \<noteq> CHR 0x0A)"
      by blast
    show ?thesis unfolding i l by simp
  qed
  from l 1 2 3 show ?thesis by blast
qed

section \<open>The parser over the lines\<close>

lemma section_parse_line:
  "section (parse_line st l) = (case kind l of Header s \<Rightarrow> Some s | _ \<Rightarrow> section st)"
  by (simp add: parse_line_kind section_parse_skill split: line_kind.splits)

lemma color_parse_line:
  "field ent_color (skills (parse_line st l)) k =
     (case kind l of
        Skill k0 v \<Rightarrow> if k = k0 \<and> section st = Some CELL_COLOR then Some v
                      else field ent_color (skills st) k
      | _ \<Rightarrow> field ent_color (skills st) k)"
  by (simp add: parse_line_kind color_parse_skill split: line_kind.splits)

lemma image_parse_line:
  "field ent_image (skills (parse_line st l)) k =
     (case kind l of
        Skill k0 v \<Rightarrow> if k = k0 \<and> section st = Some CELL_IMAGE then Some v
                      else field ent_image (skills st) k
      | _ \<Rightarrow> field ent_image (skills st) k)"
  by (simp add: parse_line_kind image_parse_skill split: line_kind.splits)

lemma distinct_parse_line:
  "distinct (map fst (skills st)) \<Longrightarrow> distinct (map fst (skills (parse_line st l)))"
  by (simp add: parse_line_kind keys_parse_skill distinct_setdefault split: line_kind.splits)

lemma distinct_foldl_parse_line:
  "distinct (map fst (skills st)) \<Longrightarrow> distinct (map fst (skills (foldl parse_line st ls)))"
  by (induction ls arbitrary: st) (simp_all add: distinct_parse_line)

lemma map_of_rev_append:
  "map_of (rev ys @ xs) k = (case map_of (rev ys) k of Some v \<Rightarrow> Some v | None \<Rightarrow> map_of xs k)"
  by (simp add: map_add_def split: option.splits)

lemma color_foldl_parse_line:
  "field ent_color (skills (foldl parse_line st ls)) k =
     (case map_of (rev (assigns CELL_COLOR (section st) ls)) k of
        Some v \<Rightarrow> Some v
      | None \<Rightarrow> field ent_color (skills st) k)"
proof (induction ls arbitrary: st)
  case Nil
  show ?case by simp
next
  case (Cons l ls)
  show ?case
    by (cases "kind l")
      (auto simp: Cons.IH section_parse_line color_parse_line map_of_rev_append
        split: option.splits)
qed

lemma image_foldl_parse_line:
  "field ent_image (skills (foldl parse_line st ls)) k =
     (case map_of (rev (assigns CELL_IMAGE (section st) ls)) k of
        Some v \<Rightarrow> Some v
      | None \<Rightarrow> field ent_image (skills st) k)"
proof (induction ls arbitrary: st)
  case Nil
  show ?case by simp
next
  case (Cons l ls)
  show ?case
    by (cases "kind l")
      (auto simp: Cons.IH section_parse_line image_parse_line map_of_rev_append
        split: option.splits)
qed

lemma map_of_rev_last:
  "k \<notin> fst ` set ys \<Longrightarrow> map_of (rev (xs @ (k, v) # ys)) k = Some v"
proof -
  assume "k \<notin> fst ` set ys"
  then have "map_of (rev ys) k = None" by (simp add: map_of_eq_None_iff)
  then show ?thesis by (simp add: map_add_def)
qed

text \<open>
  Claim C10: when a skill key stands in several key lines of the sections of one managed
  name, the parsed dictionary has one entry for the key, and its field (the color for the
  color section, the image for the image section) is the value of the last of these
  lines in document order.
\<close>

theorem duplicate_keys_last_wins:
  "distinct (map fst (snd (parse_ini text)))
   \<and> field ent_color (snd (parse_ini text)) k
       = map_of (rev (assigns CELL_COLOR None (splitlines text))) k
   \<and> field ent_image (snd (parse_ini text)) k
       = map_of (rev (assigns CELL_IMAGE None (splitlines text))) k
   \<and> (assigns CELL_COLOR None (splitlines text) = xs @ (k, v) # ys \<and> k \<notin> fst ` set ys
        \<longrightarrow> field ent_color (snd (parse_ini text)) k = Some v)
   \<and> (assigns CELL_IMAGE None (splitlines text) = xs' @ (k, v') # ys' \<and> k \<notin> fst ` set ys'
        \<longrightarrow> field ent_image (snd (parse_ini text)) k = Some v')"
proof -
  have s: "snd (parse_ini text) = skills (foldl parse_line init_state (splitlines text))"
    by (simp add: parse_ini_def Let_def)
  have i: "section init_state = None" "skills init_state = []"
    by (simp_all add: init_state_def)
  have d: "distinct (map fst (snd (parse_ini text)))"
    unfolding s by (rule distinct_foldl_parse_line) (simp add: i)
  have n: "field ent_color (skills init_state) k = None" "field ent_image (skills init_state) k = None"
    by (simp_all add: i field_def)
  have c: "field ent_color (snd (parse_ini text)) k
       = map_of (rev (assigns CELL_COLOR None (splitlines text))) k"
    unfolding s by (simp add: color_foldl_parse_line i(1) n split: option.splits)
  have m: "field ent_image (snd (parse_ini text)) k
       = map_of (rev (assigns CELL_IMAGE None (splitlines text))) k"
    unfolding s by (simp add: image_foldl_parse_line i(1) n split: option.splits)
  show ?thesis
    using d c m by (auto simp: map_of_rev_last simp del: map_of_append rev_append)
qed

theorem duplicate_keys_last_wins_witness:
  "assigns CELL_COLOR None (splitlines dup_text)
     = [(''Skill0001'', ''0xFF000001''), (''Skill0002'', ''0xFF000002'')]
         @ (''Skill0001'', ''0xFF000003'') # []
   \<and> ''Skill0001'' \<notin> fst ` set ([] :: (string \<times> string) list)
   \<and> assigns CELL_IMAGE None (splitlines dup_text)
     = [(''Skill0001'', ''a.bmp'')] @ (''Skill0001'', ''b.bmp'') # [(''Skill0002'', ''c.bmp'')]
   \<and> ''Skill0001'' \<notin> fst ` set [(''Skill0002'', ''c.bmp'')]
   \<and> field ent_color (snd (parse_ini dup_text)) ''Skill0001'' = Some ''0xFF000003''
   \<and> field ent_image (snd (parse_ini dup_text)) ''Skill0001'' = Some ''b.bmp''
   \<and> distinct (map fst (snd (parse_ini dup_text)))"
proof -
  have a: "assigns CELL_COLOR None (splitlines dup_text)
     = [(''Skill0001'', ''0xFF000001''), (''Skill0002'', ''0xFF000002'')]
         @ (''Skill0001'', ''0xFF000003'') # []"
    by code_simp
  have b: "assigns CELL_IMAGE None (splitlines dup_text)
     = [(''Skill0001'', ''a.bmp'')] @ (''Skill0001'', ''b.bmp'') # [(''Skill0002'', ''c.bmp'')]"
    by code_simp
  have n: "''Skill0001'' \<notin> fst ` set ([] :: (string \<times> string) list)"
    "''Skill0001'' \<notin> fst ` set [(''Skill0002'', ''c.bmp'')]"
    by simp_all
  note t = duplicate_keys_last_wins [of dup_text "''Skill0001''"
      "[(''Skill0001'', ''0xFF000001''), (''Skill0002'', ''0xFF000002'')]" "''0xFF000003''" "[]"
      "[(''Skill0001'', ''a.bmp'')]" "''b.bmp''" "[(''Skill0002'', ''c.bmp'')]"]
  from t a b n show ?thesis by blast
qed

section \<open>The pending comment\<close>

lemma strip_Nil: "strip [] = []"
  by (simp add: strip_def)

lemma kind_Comment_nonempty: "kind c = Comment \<Longrightarrow> c \<noteq> []"
  by (auto simp: kind_def Let_def strip_Nil startswith_def split: if_splits)

lemma foldl_parse_line_Other:
  "\<forall>m \<in> set mid. kind m = Other \<Longrightarrow> foldl parse_line st mid = st"
  by (induction mid arbitrary: st) (simp_all add: parse_line_kind)

text \<open>
  Claim C9: a pending comment is cleared by a section header and by a skill line of the
  color section, which takes it as the comment of its entry, and by no other line: a
  comment line replaces it, and a blank or unrecognized line changes nothing of the
  state. So the latest comment line before a skill line of the color section becomes the
  comment of that entry, also across blank and unrecognized lines, and whatever older
  comment was pending.
\<close>

theorem pending_comment_rule:
  "(truthy (last_comment st) \<longrightarrow>
      (last_comment (parse_line st l) = None \<longleftrightarrow>
         (\<exists>s. kind l = Header s) \<or> (\<exists>k v. kind l = Skill k v \<and> section st = Some CELL_COLOR)))
   \<and> (kind l = Comment \<longrightarrow> last_comment (parse_line st l) = Some l)
   \<and> (kind l = Other \<longrightarrow> parse_line st l = st)
   \<and> (kind l = Skill k v \<and> section st = Some CELL_COLOR \<and> truthy (last_comment st) \<longrightarrow>
        field ent_comment (skills (parse_line st l)) k = last_comment st)
   \<and> (section st = Some CELL_COLOR \<and> kind c = Comment \<and> (\<forall>m \<in> set mid. kind m = Other)
        \<and> kind l' = Skill k' v' \<longrightarrow>
        field ent_comment (skills (foldl parse_line st (c # mid @ [l']))) k' = Some c
        \<and> field ent_color (skills (foldl parse_line st (c # mid @ [l']))) k' = Some v'
        \<and> last_comment (foldl parse_line st (c # mid @ [l'])) = None)"
proof -
  have a: "last_comment (parse_line st l) = None \<longleftrightarrow>
         (\<exists>s. kind l = Header s) \<or> (\<exists>k v. kind l = Skill k v \<and> section st = Some CELL_COLOR)"
    if "truthy (last_comment st)"
    using that
    by (cases "kind l"; cases "last_comment st")
      (auto simp: parse_line_kind last_comment_parse_skill)
  have b: "last_comment (parse_line st l) = Some l" if "kind l = Comment"
    using that by (simp add: parse_line_kind)
  have c: "parse_line st l = st" if "kind l = Other"
    using that by (simp add: parse_line_kind)
  have d: "field ent_comment (skills (parse_line st l)) k = last_comment st"
    if "kind l = Skill k v \<and> section st = Some CELL_COLOR \<and> truthy (last_comment st)"
    using that by (simp add: parse_line_kind comment_parse_skill)
  have e: "field ent_comment (skills (foldl parse_line st (c # mid @ [l']))) k' = Some c
        \<and> field ent_color (skills (foldl parse_line st (c # mid @ [l']))) k' = Some v'
        \<and> last_comment (foldl parse_line st (c # mid @ [l'])) = None"
    if h: "section st = Some CELL_COLOR \<and> kind c = Comment \<and> (\<forall>m \<in> set mid. kind m = Other)
        \<and> kind l' = Skill k' v'"
  proof -
    let ?st1 = "st\<lparr>last_comment := Some c\<rparr>"
    have "foldl parse_line st (c # mid @ [l']) = parse_line (foldl parse_line (parse_line st c) mid) l'"
      by simp
    also have "\<dots> = parse_skill ?st1 k' v'"
      using h by (simp add: foldl_parse_line_Other parse_line_kind)
    finally have eq: "foldl parse_line st (c # mid @ [l']) = parse_skill ?st1 k' v'" .
    have t: "truthy (last_comment ?st1)" "section ?st1 = Some CELL_COLOR"
      using h kind_Comment_nonempty [of c] by simp_all
    show ?thesis
      unfolding eq using t
      by (simp add: comment_parse_skill color_parse_skill last_comment_parse_skill)
  qed
  from a b c d e show ?thesis by blast
qed


theorem pending_comment_rule_witness:
  "section st_color = Some CELL_COLOR \<and> truthy (last_comment st_color)
   \<and> kind ''; #Fireball'' = Comment \<and> kind [] = Other \<and> kind ''junk'' = Other
   \<and> kind ''Skill0001=0xFFFF0000'' = Skill ''Skill0001'' ''0xFFFF0000''
   \<and> field ent_comment
        (skills (foldl parse_line st_color (''; #Fireball'' # [[], ''junk''] @ [''Skill0001=0xFFFF0000''])))
        ''Skill0001'' = Some ''; #Fireball''
   \<and> last_comment (parse_line st_color ''Skill0001=0xFFFF0000'') = None
   \<and> field ent_comment (skills (parse_line st_color ''Skill0001=0xFFFF0000'')) ''Skill0001''
        = Some ''; old''
   \<and> last_comment (parse_line st_color ''; #Fireball'') = Some ''; #Fireball''
   \<and> parse_line st_color ''junk'' = st_color"
proof -
  have s: "section st_color = Some CELL_COLOR" "truthy (last_comment st_color)"
    "last_comment st_color = Some ''; old''"
    by (simp_all add: st_color_def)
  have k: "kind ''; #Fireball'' = Comment" "kind [] = Other" "kind ''junk'' = Other"
    "kind ''Skill0001=0xFFFF0000'' = Skill ''Skill0001'' ''0xFFFF0000''"
    by code_simp+
  note t1 = pending_comment_rule [of st_color "''Skill0001=0xFFFF0000''" "''Skill0001''"
      "''0xFFFF0000''" "''; #Fireball''" "[[], ''junk'']" "''Skill0001=0xFFFF0000''"
      "''Skill0001''" "''0xFFFF0000''"]
  note t2 = pending_comment_rule [of st_color "''; #Fireball''" "''Skill0001''"
      "''0xFFFF0000''" "''; #Fireball''" "[[], ''junk'']" "''Skill0001=0xFFFF0000''"
      "''Skill0001''" "''0xFFFF0000''"]
  note t3 = pending_comment_rule [of st_color "''junk''" "''Skill0001''"
      "''0xFFFF0000''" "''; #Fireball''" "[[], ''junk'']" "''Skill0001=0xFFFF0000''"
      "''Skill0001''" "''0xFFFF0000''"]
  have m: "\<forall>m \<in> set [[], ''junk'']. kind m = Other" using k by simp
  from t1 t2 t3 s k m show ?thesis by (simp del: foldl_Cons foldl_append)
qed

section \<open>Stripped strings and generated lines\<close>

lemma dropWhile_hd_id: "xs \<noteq> [] \<Longrightarrow> \<not> P (hd xs) \<Longrightarrow> dropWhile P xs = xs"
  by (cases xs) auto

lemma last_dropWhile: "dropWhile P xs \<noteq> [] \<Longrightarrow> last (dropWhile P xs) = last xs"
  by (metis last_appendR takeWhile_dropWhile_id)

lemma strip_id: "s \<noteq> [] \<Longrightarrow> \<not> is_space (hd s) \<Longrightarrow> \<not> is_space (last s) \<Longrightarrow> strip s = s"
  by (simp add: strip_def dropWhile_hd_id hd_rev)

lemma strip_ends:
  assumes "strip s \<noteq> []"
  shows "\<not> is_space (hd (strip s))" and "\<not> is_space (last (strip s))"
proof -
  let ?t = "dropWhile is_space s"
  let ?u = "dropWhile is_space (rev ?t)"
  have u: "?u \<noteq> []" using assms by (simp add: strip_def)
  have t: "?t \<noteq> []"
  proof
    assume a: "?t = []"
    have "?u = []" unfolding a by simp
    with u show False by simp
  qed
  have "last ?u = last (rev ?t)" using u by (rule last_dropWhile)
  then have "hd (strip s) = hd ?t" using t u by (simp add: strip_def hd_rev last_rev)
  then show "\<not> is_space (hd (strip s))" using hd_dropWhile [OF t] by simp
  have "last (strip s) = hd ?u" using u by (simp add: strip_def last_rev)
  then show "\<not> is_space (last (strip s))" using hd_dropWhile [OF u] by simp
qed

lemma strip_strip: "strip (strip s) = strip s"
proof (cases "strip s = []")
  case True
  then show ?thesis by (simp add: strip_Nil)
next
  case False
  then show ?thesis using strip_ends [OF False] by (simp add: strip_id)
qed

lemma set_strip: "set (strip s) \<subseteq> set s"
proof -
  have "set (strip s) \<subseteq> set (dropWhile is_space s)"
    unfolding strip_def using set_dropWhileD by fastforce
  then show ?thesis using set_dropWhileD by fastforce
qed

lemma strip_Cons_space: "is_space c \<Longrightarrow> strip (c # s) = strip s"
  by (simp add: strip_def)

lemma strip_snoc_space: "is_space c \<Longrightarrow> strip s = s \<Longrightarrow> strip (s @ [c]) = s"
proof (cases "s = []")
  case True
  assume "is_space c"
  with True show ?thesis by (simp add: strip_def)
next
  case False
  assume c: "is_space c" and s: "strip s = s"
  from False s have e: "\<not> is_space (hd s)" "\<not> is_space (last s)"
    using strip_ends [of s] by simp_all
  have "dropWhile is_space (s @ [c]) = s @ [c]"
    using False e by (simp add: dropWhile_hd_id)
  moreover have "dropWhile is_space (rev s) = rev s"
    using False e by (simp add: dropWhile_hd_id hd_rev)
  ultimately show ?thesis using c by (simp add: strip_def)
qed

lemma key_ok_hd: "key_ok k \<Longrightarrow> k \<noteq> [] \<and> hd k = CHR ''S''"
  by (cases k) (auto simp: key_ok_def startswith_def)

lemma space_simps:
  "\<not> is_space CHR ''S''" "\<not> is_space CHR ''=''" "is_space CHR '' ''" "\<not> is_space CHR ''p''"
  "\<not> is_space CHR ''.''" "\<not> is_space CHR ''s''"
  by (simp_all add: is_space_def)

lemma not_header_S: "s \<noteq> [] \<Longrightarrow> hd s = CHR ''S'' \<Longrightarrow> \<not> is_header s \<and> \<not> startswith s '';''"
  by (cases s) (auto simp: is_header_def startswith_def)

lemma split_at_eq:
  "CHR ''='' \<notin> set a \<Longrightarrow>
     split_before (CHR ''='') (a @ CHR ''='' # b) = a \<and> split_after (CHR ''='') (a @ CHR ''='' # b) = b"
  by (induction a) (auto simp: split_before_def split_after_def)

lemma kind_color_line:
  assumes k: "key_ok k" and v: "v \<noteq> []" "strip v = v"
  shows "kind (k @ ''='' @ v) = Skill k v"
proof -
  let ?l = "k @ CHR ''='' # v"
  have kh: "k \<noteq> []" "hd k = CHR ''S''" using key_ok_hd [OF k] by simp_all
  have ve: "\<not> is_space (last v)" using strip_ends(2) [of v] v by simp
  have s: "strip ?l = ?l"
    using kh v ve by (intro strip_id) (simp_all add: space_simps)
  have nh: "\<not> is_header ?l \<and> \<not> startswith ?l '';''"
    using kh by (intro not_header_S) simp_all
  have ne: "CHR ''='' \<notin> set k" using k by (simp add: key_ok_def)
  have b: "split_before (CHR ''='') ?l = k" and a: "split_after (CHR ''='') ?l = v"
    using split_at_eq [OF ne, of v] by simp_all
  have "kind ?l = Skill k v"
    using k v nh by (simp add: kind_def Let_def s b a key_ok_def)
  then show ?thesis by simp
qed

lemma kind_image_line:
  assumes k: "key_ok k" and v: "v \<noteq> []" "strip v = v"
  shows "kind (k @ '' = '' @ v) = Skill k v"
proof -
  let ?l = "k @ CHR '' '' # CHR ''='' # CHR '' '' # v"
  have kh: "k \<noteq> []" "hd k = CHR ''S''" using key_ok_hd [OF k] by simp_all
  have ve: "\<not> is_space (last v)" using strip_ends(2) [of v] v by simp
  have s: "strip ?l = ?l"
    using kh v ve by (intro strip_id) (simp_all add: space_simps)
  have nh: "\<not> is_header ?l \<and> \<not> startswith ?l '';''"
    using kh by (intro not_header_S) simp_all
  have ne: "CHR ''='' \<notin> set (k @ [CHR '' ''])" using k by (simp add: key_ok_def)
  have b: "split_before (CHR ''='') ?l = k @ [CHR '' '']"
    and a: "split_after (CHR ''='') ?l = CHR '' '' # v"
    using split_at_eq [OF ne, of "CHR '' '' # v"] by simp_all
  have sk: "strip (k @ [CHR '' '']) = k"
    using k by (simp add: strip_snoc_space space_simps key_ok_def)
  have sv: "strip (CHR '' '' # v) = v"
    using v by (simp add: strip_Cons_space space_simps)
  have "kind ?l = Skill k v"
    using k v nh by (simp add: kind_def Let_def s b a sk sv key_ok_def)
  then show ?thesis by simp
qed

lemma kind_Nil: "kind [] = Other"
  by (simp add: kind_def strip_Nil is_header_def startswith_def)

lemma kind_Skill_D:
  assumes "kind l = Skill k v"
  shows "key_ok k" and "strip v = v" and "set k \<subseteq> set l" and "set v \<subseteq> set l"
proof -
  let ?s = "strip l"
  from assms have k: "k = strip (split_before (CHR ''='') ?s)"
    and v: "v = strip (split_after (CHR ''='') ?s)"
    and p: "startswith k ''Skill''" "length k = 9"
    by (auto simp: kind_def Let_def split: if_splits)
  have "set (split_before (CHR ''='') ?s) \<subseteq> set ?s"
    unfolding split_before_def using set_takeWhileD by fastforce
  then have sb: "set k \<subseteq> set ?s" unfolding k using set_strip by fastforce
  have "CHR ''='' \<notin> set (split_before (CHR ''='') ?s)"
    unfolding split_before_def using set_takeWhileD by fastforce
  then have "CHR ''='' \<notin> set k" unfolding k using set_strip by fastforce
  then show "key_ok k" using p by (simp add: key_ok_def) (simp add: k strip_strip)
  show "strip v = v" by (simp add: v strip_strip)
  show "set k \<subseteq> set l" using sb set_strip by fastforce
  have "set (split_after (CHR ''='') ?s) \<subseteq> set ?s"
    unfolding split_after_def
    by (meson in_set_dropD set_dropWhileD subsetI)
  then show "set v \<subseteq> set l" unfolding v using set_strip by fastforce
qed

section \<open>Lines and line breaks\<close>

lemma break_free_simps:
  "break_free []" "break_free (c # s) \<longleftrightarrow> \<not> is_break c \<and> break_free s"
  "break_free (s @ t) \<longleftrightarrow> break_free s \<and> break_free t"
  by (auto simp: break_free_def)

lemma break_free_subset: "set s \<subseteq> set t \<Longrightarrow> break_free t \<Longrightarrow> break_free s"
  by (auto simp: break_free_def list_all_iff)

lemma splitlines_from_break_free:
  "break_free acc \<Longrightarrow> l \<in> set (splitlines_from acc s) \<Longrightarrow> break_free l"
  by (induction acc s rule: splitlines_from.induct)
    (auto simp: break_free_simps split: if_splits)

lemma splitlines_break_free: "l \<in> set (splitlines text) \<Longrightarrow> break_free l"
  unfolding splitlines_def by (rule splitlines_from_break_free) (simp_all add: break_free_simps)

lemma is_break_LF: "is_break (CHR 0x0A)" "CHR 0x0A \<noteq> CHR 0x0D"
  by (simp_all add: is_break_def)

lemma is_break_CR: "is_break (CHR 0x0D)"
  by (simp add: is_break_def)

lemma splitlines_from_line:
  "break_free l \<Longrightarrow>
     splitlines_from acc (l @ CHR 0x0A # rest) = (acc @ l) # splitlines_from [] rest"
proof (induction l arbitrary: acc)
  case Nil
  show ?case by (cases rest) (simp_all add: is_break_LF)
next
  case (Cons x l)
  then have x: "\<not> is_break x" and l: "break_free l" by (simp_all add: break_free_simps)
  from x have ncr: "x \<noteq> CHR 0x0D" using is_break_CR by auto
  obtain d cs where dc: "l @ CHR 0x0A # rest = d # cs" by (cases "l @ CHR 0x0A # rest") auto
  have "splitlines_from acc ((x # l) @ CHR 0x0A # rest) = splitlines_from acc (x # d # cs)"
    by (simp add: dc)
  also have "\<dots> = splitlines_from (acc @ [x]) (d # cs)"
    using x ncr by simp
  also have "\<dots> = splitlines_from (acc @ [x]) (l @ CHR 0x0A # rest)"
    by (simp add: dc)
  also have "\<dots> = ((acc @ [x]) @ l) # splitlines_from [] rest"
    by (rule Cons.IH [OF l])
  finally show ?case by simp
qed

lemma splitlines_join:
  "ls \<noteq> [] \<Longrightarrow> list_all break_free ls \<Longrightarrow> splitlines (join [CHR 0x0A] ls @ [CHR 0x0A]) = ls"
proof (induction "[CHR 0x0A]" ls rule: join.induct)
  case 1
  then show ?case by simp
next
  case (2 x)
  then have "break_free x" by simp
  then show ?case
    using splitlines_from_line [of x "[]" "[]"] by (simp add: splitlines_def)
next
  case (3 x y ys)
  then have x: "break_free x" and r: "list_all break_free (y # ys)" by simp_all
  have "splitlines (join [CHR 0x0A] (x # y # ys) @ [CHR 0x0A])
        = splitlines_from [] (x @ CHR 0x0A # (join [CHR 0x0A] (y # ys) @ [CHR 0x0A]))"
    by (simp add: splitlines_def)
  also have "\<dots> = x # splitlines (join [CHR 0x0A] (y # ys) @ [CHR 0x0A])"
    using splitlines_from_line [OF x, of "[]"] by (simp add: splitlines_def)
  also have "\<dots> = x # y # ys"
    using "3.hyps" r by simp
  finally show ?case .
qed

lemma lower_char_break: "is_break (lower_char c) \<longleftrightarrow> is_break c"
  using lower_char_cases [of c] letters_facts(4) by auto

lemma lower_char_space: "is_space (lower_char c) \<longleftrightarrow> is_space c"
  using lower_char_cases [of c] letters_facts(4) by auto

lemma break_free_lower: "break_free (lower s) \<longleftrightarrow> break_free s"
  by (induction s) (simp_all add: lower_def break_free_simps lower_char_break)

lemma strip_lower_bmp:
  assumes "strip s = s"
  shows "strip (lower s @ ''.bmp'') = lower s @ ''.bmp''"
proof (rule strip_id)
  show "lower s @ ''.bmp'' \<noteq> []" by simp
  show "\<not> is_space (last (lower s @ ''.bmp''))" by (simp add: space_simps)
  show "\<not> is_space (hd (lower s @ ''.bmp''))"
  proof (cases "s = []")
    case True
    then show ?thesis by (simp add: lower_def space_simps)
  next
    case False
    then have "\<not> is_space (hd s)" using strip_ends(1) [of s] assms by simp
    then show ?thesis using False by (cases s) (simp_all add: lower_def lower_char_space)
  qed
qed

section \<open>Parsing a rebuilt section\<close>

lemma key_iff: "k \<in> fst ` set sk \<longleftrightarrow> map_of sk k \<noteq> None"
  by (simp add: map_of_eq_None_iff)

lemma all_keys_iff: "list_all P (map fst sk) \<longleftrightarrow> (\<forall>k. map_of sk k \<noteq> None \<longrightarrow> P k)"
proof -
  have "list_all P (map fst sk) \<longleftrightarrow> (\<forall>k. k \<in> fst ` set sk \<longrightarrow> P k)"
    by (auto simp: list_all_iff)
  then show ?thesis by (simp only: key_iff)
qed

lemma field_None: "map_of sk k = None \<Longrightarrow> field f sk k = None"
  by (simp add: field_def)

lemma agrees_iff:
  "agrees sk2 sk \<longleftrightarrow>
     (\<forall>k. (map_of sk2 k \<noteq> None \<longrightarrow> map_of sk k \<noteq> None)
        \<and> (field ent_image sk2 k = None \<or> field ent_image sk2 k = field ent_image sk k)
        \<and> (field ent_color sk2 k = None \<or> field ent_color sk2 k = field ent_color sk k)
        \<and> (field ent_comment sk2 k = None \<or> field ent_comment sk2 k = field ent_comment sk k))"
  unfolding agrees_def all_keys_iff
  by (meson field_None)

lemma grows_iff:
  "grows sk2 sk2' \<longleftrightarrow>
     (\<forall>k. (map_of sk2 k \<noteq> None \<longrightarrow> map_of sk2' k \<noteq> None)
        \<and> (field ent_image sk2 k = None \<or> field ent_image sk2' k \<noteq> None)
        \<and> (field ent_color sk2 k = None \<or> field ent_color sk2' k \<noteq> None)
        \<and> (field ent_comment sk2 k = None \<or> field ent_comment sk2' k \<noteq> None))"
  unfolding grows_def all_keys_iff
  by (meson field_None)

lemma has_images_iff:
  "has_images sk2 sk \<longleftrightarrow>
     (\<forall>k. map_of sk k \<noteq> None \<longrightarrow>
            map_of sk2 k \<noteq> None \<and> field ent_image sk2 k = field ent_image sk k)"
  unfolding has_images_def all_keys_iff by (rule refl)

lemma has_colors_iff:
  "has_colors sk2 sk \<longleftrightarrow>
     (\<forall>k. field ent_color sk k = None
        \<or> (map_of sk2 k \<noteq> None \<and> field ent_color sk2 k = field ent_color sk k
            \<and> field ent_comment sk2 k = field ent_comment sk k))"
  unfolding has_colors_def all_keys_iff
  by (meson field_None)

lemma grows_refl: "grows sk sk"
  unfolding grows_iff by blast

lemma grows_trans: "grows a b \<Longrightarrow> grows b c \<Longrightarrow> grows a c"
  unfolding grows_iff by blast

lemma has_key_parse_skill:
  "map_of (skills (parse_skill st k v)) k' \<noteq> None \<longleftrightarrow> k' = k \<or> map_of (skills st) k' \<noteq> None"
proof -
  have "set (map fst (skills (parse_skill st k v))) = set (map fst (setdefault k (skills st)))"
    by (simp only: keys_parse_skill)
  then have "fst ` set (skills (parse_skill st k v)) = insert k (fst ` set (skills st))"
    by (simp only: set_map keys_setdefault)
  then have "k' \<in> fst ` set (skills (parse_skill st k v)) \<longleftrightarrow> k' = k \<or> k' \<in> fst ` set (skills st)"
    by simp
  then show ?thesis by (simp only: key_iff)
qed

lemma field_parse_skill_other:
  assumes "k' \<noteq> k"
  shows "field ent_image (skills (parse_skill st k v)) k' = field ent_image (skills st) k'"
    and "field ent_color (skills (parse_skill st k v)) k' = field ent_color (skills st) k'"
    and "field ent_comment (skills (parse_skill st k v)) k' = field ent_comment (skills st) k'"
    and "map_of (skills (parse_skill st k v)) k' \<noteq> None \<longleftrightarrow> map_of (skills st) k' \<noteq> None"
  using assms
  by (simp_all add: image_parse_skill color_parse_skill comment_parse_skill has_key_parse_skill
      del: not_None_eq)

lemma grows_parse_skill: "grows (skills st) (skills (parse_skill st k v))"
  unfolding grows_iff
proof (intro allI)
  fix k'
  let ?sk = "skills st" and ?sk' = "skills (parse_skill st k v)"
  show "(map_of ?sk k' \<noteq> None \<longrightarrow> map_of ?sk' k' \<noteq> None)
        \<and> (field ent_image ?sk k' = None \<or> field ent_image ?sk' k' \<noteq> None)
        \<and> (field ent_color ?sk k' = None \<or> field ent_color ?sk' k' \<noteq> None)
        \<and> (field ent_comment ?sk k' = None \<or> field ent_comment ?sk' k' \<noteq> None)"
  proof (cases "k' = k")
    case False
    then show ?thesis by (simp add: field_parse_skill_other del: not_None_eq)
  next
    case True
    have c: "truthy (last_comment st) \<Longrightarrow> last_comment st \<noteq> None"
      by (cases "last_comment st") simp_all
    show ?thesis
      unfolding True using c
      by (simp add: has_key_parse_skill image_parse_skill color_parse_skill comment_parse_skill
          del: not_None_eq)
  qed
qed

lemma grows_parse_line: "grows (skills st) (skills (parse_line st l))"
  by (cases "kind l") (simp_all add: parse_line_kind grows_refl grows_parse_skill)

lemma grows_foldl: "grows (skills st) (skills (foldl parse_line st ls))"
proof (induction ls arbitrary: st)
  case Nil
  show ?case by (simp add: grows_refl)
next
  case (Cons l ls)
  show ?case
    using grows_trans [OF grows_parse_line [of st l] Cons.IH [of "parse_line st l"]] by simp
qed

lemma has_images_grows:
  assumes "has_images sk2 sk" "grows sk2 sk2'" "agrees sk2' sk"
  shows "has_images sk2' sk"
  unfolding has_images_iff
proof (intro allI impI)
  fix k
  assume k: "map_of sk k \<noteq> None"
  from assms(1) k have 1: "map_of sk2 k \<noteq> None" "field ent_image sk2 k = field ent_image sk k"
    unfolding has_images_iff by blast+
  from assms(2) have 2: "map_of sk2 k \<noteq> None \<longrightarrow> map_of sk2' k \<noteq> None"
    "field ent_image sk2 k = None \<or> field ent_image sk2' k \<noteq> None"
    unfolding grows_iff by blast+
  from assms(3) have 3: "field ent_image sk2' k = None \<or> field ent_image sk2' k = field ent_image sk k"
    unfolding agrees_iff by blast
  from 1 2 3 show "map_of sk2' k \<noteq> None \<and> field ent_image sk2' k = field ent_image sk k"
    by metis
qed

lemma has_colors_grows:
  assumes "has_colors sk2 sk" "grows sk2 sk2'" "agrees sk2' sk"
  shows "has_colors sk2' sk"
  unfolding has_colors_iff
proof (intro allI)
  fix k
  from assms(1) have 1: "field ent_color sk k = None
        \<or> (map_of sk2 k \<noteq> None \<and> field ent_color sk2 k = field ent_color sk k
            \<and> field ent_comment sk2 k = field ent_comment sk k)"
    unfolding has_colors_iff by blast
  from assms(2) have 2: "map_of sk2 k \<noteq> None \<longrightarrow> map_of sk2' k \<noteq> None"
    "field ent_color sk2 k = None \<or> field ent_color sk2' k \<noteq> None"
    "field ent_comment sk2 k = None \<or> field ent_comment sk2' k \<noteq> None"
    unfolding grows_iff by blast+
  from assms(3) have 3: "field ent_color sk2' k = None \<or> field ent_color sk2' k = field ent_color sk k"
    "field ent_comment sk2' k = None \<or> field ent_comment sk2' k = field ent_comment sk k"
    unfolding agrees_iff by blast+
  from 1 2 3 show "field ent_color sk k = None
        \<or> (map_of sk2' k \<noteq> None \<and> field ent_color sk2' k = field ent_color sk k
            \<and> field ent_comment sk2' k = field ent_comment sk k)"
    by metis
qed

lemma tidy_D:
  assumes "tidy sk" "map_of sk k = Some e"
  shows "key_ok k" "break_free k" "tidy_entry e"
proof -
  from assms(2) have "(k, e) \<in> set sk" by (rule map_of_SomeD)
  with assms(1) show "key_ok k" "break_free k" "tidy_entry e"
    by (auto simp: tidy_def list_all_iff)
qed

lemma agrees_parse_skill:
  assumes a: "agrees (skills st) sk"
    and k: "map_of sk k \<noteq> None"
    and i: "section st = Some CELL_IMAGE \<Longrightarrow> field ent_image sk k = Some v"
    and c: "section st = Some CELL_COLOR \<Longrightarrow> field ent_color sk k = Some v"
    and m: "section st = Some CELL_COLOR \<Longrightarrow> truthy (last_comment st) \<Longrightarrow>
              field ent_comment sk k = last_comment st"
  shows "agrees (skills (parse_skill st k v)) sk"
  unfolding agrees_iff
proof (intro allI)
  fix k'
  let ?sk = "skills st" and ?sk' = "skills (parse_skill st k v)"
  from a have ak: "(map_of ?sk k' \<noteq> None \<longrightarrow> map_of sk k' \<noteq> None)
        \<and> (field ent_image ?sk k' = None \<or> field ent_image ?sk k' = field ent_image sk k')
        \<and> (field ent_color ?sk k' = None \<or> field ent_color ?sk k' = field ent_color sk k')
        \<and> (field ent_comment ?sk k' = None \<or> field ent_comment ?sk k' = field ent_comment sk k')"
    unfolding agrees_iff by blast
  show "(map_of ?sk' k' \<noteq> None \<longrightarrow> map_of sk k' \<noteq> None)
        \<and> (field ent_image ?sk' k' = None \<or> field ent_image ?sk' k' = field ent_image sk k')
        \<and> (field ent_color ?sk' k' = None \<or> field ent_color ?sk' k' = field ent_color sk k')
        \<and> (field ent_comment ?sk' k' = None \<or> field ent_comment ?sk' k' = field ent_comment sk k')"
  proof (cases "k' = k")
    case False
    then show ?thesis using ak by (simp add: field_parse_skill_other del: not_None_eq)
  next
    case True
    show ?thesis
      unfolding True using ak [unfolded True] k i c m
      by (simp add: has_key_parse_skill image_parse_skill color_parse_skill comment_parse_skill
          del: not_None_eq)
  qed
qed

text \<open>A line outside the managed sections.\<close>

lemma agrees_parse_line_outside:
  assumes a: "agrees (skills st) sk"
    and s: "section st \<noteq> Some CELL_COLOR" "section st \<noteq> Some CELL_IMAGE"
    and k: "\<And>k v. kind l = Skill k v \<Longrightarrow> map_of sk k \<noteq> None"
  shows "agrees (skills (parse_line st l)) sk"
proof (cases "kind l")
  case (Skill k0 v)
  show ?thesis
    using agrees_parse_skill [OF a k [OF Skill], of v] s Skill
    by (simp add: parse_line_kind)
qed (use a in \<open>simp_all add: parse_line_kind\<close>)


text \<open>The lines of one entry in a rebuilt image section.\<close>

lemma parse_image_entry:
  assumes t: "tidy sk" and m: "map_of sk k = Some e"
    and s: "section st = Some CELL_IMAGE" and a: "agrees (skills st) sk"
  shows "section (foldl parse_line st (emit_image sk [] k)) = Some CELL_IMAGE
    \<and> agrees (skills (foldl parse_line st (emit_image sk [] k))) sk
    \<and> map_of (skills (foldl parse_line st (emit_image sk [] k))) k \<noteq> None
    \<and> field ent_image (skills (foldl parse_line st (emit_image sk [] k))) k = field ent_image sk k"
proof -
  note td = tidy_D [OF t m]
  from td(3) obtain v where v: "ent_image e = Some v" "v \<noteq> []" "strip v = v"
    by (auto simp: tidy_entry_def split: option.splits)
  have kl: "kind (k @ '' = '' @ v) = Skill k v"
    using td(1) v(2,3) by (rule kind_image_line)
  define st1 where "st1 = (if truthy (ent_comment e) then parse_line st (the (ent_comment e)) else st)"
  have c: "truthy (ent_comment e) \<Longrightarrow> kind (the (ent_comment e)) = Comment"
    using td(3) by (auto simp: tidy_entry_def split: option.splits)
  have st1: "skills st1 = skills st" "section st1 = Some CELL_IMAGE"
    using s c by (auto simp: st1_def parse_line_kind)
  have "foldl parse_line st (emit_image sk [] k)
        = foldl parse_line st1 [k @ '' = '' @ v, []]"
    using m v(1) by (simp add: emit_image_def st1_def)
  also have "\<dots> = parse_skill st1 k v"
    using kl by (simp add: parse_line_kind kind_Nil del: append.simps)
  finally have eq: "foldl parse_line st (emit_image sk [] k) = parse_skill st1 k v" .
  have fi: "field ent_image sk k = Some v" using m v(1) by (simp add: field_def)
  have ag: "agrees (skills (parse_skill st1 k v)) sk"
    using CELL_neq fi by (intro agrees_parse_skill) (simp_all add: st1 a m)
  show ?thesis
    unfolding eq using ag fi
    by (simp add: section_parse_skill st1 has_key_parse_skill image_parse_skill del: not_None_eq)
qed

text \<open>The lines of one entry in a rebuilt color section.\<close>

lemma parse_color_entry:
  assumes t: "tidy sk" and m: "map_of sk k = Some e"
    and s: "section st = Some CELL_COLOR" and lc: "last_comment st = None"
    and a: "agrees (skills st) sk"
  shows "section (foldl parse_line st (emit_color sk [] k)) = Some CELL_COLOR
    \<and> last_comment (foldl parse_line st (emit_color sk [] k)) = None
    \<and> agrees (skills (foldl parse_line st (emit_color sk [] k))) sk
    \<and> (field ent_color sk k = None
        \<or> (map_of (skills (foldl parse_line st (emit_color sk [] k))) k \<noteq> None
          \<and> field ent_color (skills (foldl parse_line st (emit_color sk [] k))) k
              = field ent_color sk k
          \<and> field ent_comment (skills (foldl parse_line st (emit_color sk [] k))) k
              = field ent_comment sk k))"
proof (cases "ent_color e")
  case None
  then have "emit_color sk [] k = []" using m by (simp add: emit_color_def)
  moreover have "field ent_color sk k = None" using m None by (simp add: field_def)
  ultimately show ?thesis using s lc a by simp
next
  case (Some v)
  note td = tidy_D [OF t m]
  from td(3) Some have v: "v \<noteq> []" "strip v = v"
    by (auto simp: tidy_entry_def split: option.splits)
  have kl: "kind (k @ ''='' @ v) = Skill k v"
    using td(1) v by (rule kind_color_line)
  have fc: "field ent_color sk k = Some v" using m Some by (simp add: field_def)
  have fm: "field ent_comment sk k = ent_comment e" using m by (simp add: field_def)
  have mk: "map_of sk k \<noteq> None" using m by simp
  show ?thesis
  proof (cases "ent_comment e")
    case None
    have "foldl parse_line st (emit_color sk [] k) = foldl parse_line st [k @ ''='' @ v, []]"
      using m Some v(1) None by (simp add: emit_color_def)
    also have "\<dots> = parse_skill st k v"
      using kl by (simp add: parse_line_kind kind_Nil del: append.simps)
    finally have eq: "foldl parse_line st (emit_color sk [] k) = parse_skill st k v" .
    have "field ent_comment (skills st) k = None \<or> field ent_comment (skills st) k = field ent_comment sk k"
      using a unfolding agrees_iff by blast
    then have cm: "field ent_comment (skills st) k = None"
      using fm None by auto
    have ag: "agrees (skills (parse_skill st k v)) sk"
      using CELL_neq fc by (intro agrees_parse_skill) (simp_all add: a mk s lc)
    show ?thesis
      unfolding eq using ag fc fm None cm
      by (simp add: section_parse_skill s lc has_key_parse_skill color_parse_skill
          comment_parse_skill last_comment_parse_skill del: not_None_eq)
  next
    case c: (Some c)
    from td(3) c have kc: "kind c = Comment"
      by (auto simp: tidy_entry_def split: option.splits)
    then have cn: "c \<noteq> []" by (rule kind_Comment_nonempty)
    let ?st1 = "st\<lparr>last_comment := Some c\<rparr>"
    have "foldl parse_line st (emit_color sk [] k) = foldl parse_line st [c, k @ ''='' @ v, []]"
      using m Some v(1) c cn by (simp add: emit_color_def)
    also have "\<dots> = parse_skill ?st1 k v"
      using kl kc by (simp add: parse_line_kind kind_Nil del: append.simps)
    finally have eq: "foldl parse_line st (emit_color sk [] k) = parse_skill ?st1 k v" .
    have ag: "agrees (skills (parse_skill ?st1 k v)) sk"
      using CELL_neq fc fm c by (intro agrees_parse_skill) (simp_all add: a mk s)
    show ?thesis
      unfolding eq using ag fc fm c cn
      by (simp add: section_parse_skill s has_key_parse_skill color_parse_skill
          comment_parse_skill last_comment_parse_skill del: not_None_eq)
  qed
qed

text \<open>A whole rebuilt section.\<close>

lemma parse_image_entries:
  assumes t: "tidy sk" and s: "section st = Some CELL_IMAGE" and a: "agrees (skills st) sk"
  shows "list_all (\<lambda>k. map_of sk k \<noteq> None) ids \<Longrightarrow>
    section (foldl parse_line st (concat (map (emit_image sk []) ids))) = Some CELL_IMAGE
    \<and> agrees (skills (foldl parse_line st (concat (map (emit_image sk []) ids)))) sk
    \<and> list_all (\<lambda>k. map_of (skills (foldl parse_line st (concat (map (emit_image sk []) ids)))) k \<noteq> None
          \<and> field ent_image (skills (foldl parse_line st (concat (map (emit_image sk []) ids)))) k
              = field ent_image sk k) ids"
proof (induction ids rule: rev_induct)
  case Nil
  show ?case using s a by simp
next
  case (snoc k ids)
  let ?st1 = "foldl parse_line st (concat (map (emit_image sk []) ids))"
  let ?st2 = "foldl parse_line ?st1 (emit_image sk [] k)"
  from snoc.prems have ids: "list_all (\<lambda>k. map_of sk k \<noteq> None) ids" and k: "map_of sk k \<noteq> None"
    by simp_all
  from k obtain e where e: "map_of sk k = Some e" by auto
  note ih = snoc.IH [OF ids]
  from ih have s1: "section ?st1 = Some CELL_IMAGE" and a1: "agrees (skills ?st1) sk" by simp_all
  note st = parse_image_entry [OF t e s1 a1]
  have eq: "foldl parse_line st (concat (map (emit_image sk []) (ids @ [k]))) = ?st2" by simp
  have g: "grows (skills ?st1) (skills ?st2)" by (rule grows_foldl)
  have a2: "agrees (skills ?st2) sk" using st by simp
  have old: "map_of (skills ?st2) k' \<noteq> None \<and> field ent_image (skills ?st2) k' = field ent_image sk k'"
    if k': "k' \<in> set ids" for k'
  proof -
    from ih k' have 1: "map_of (skills ?st1) k' \<noteq> None"
      "field ent_image (skills ?st1) k' = field ent_image sk k'"
      by (simp_all add: list_all_iff del: not_None_eq)
    from g have 2: "map_of (skills ?st1) k' \<noteq> None \<longrightarrow> map_of (skills ?st2) k' \<noteq> None"
      "field ent_image (skills ?st1) k' = None \<or> field ent_image (skills ?st2) k' \<noteq> None"
      unfolding grows_iff by blast+
    from a2 have 3: "field ent_image (skills ?st2) k' = None
        \<or> field ent_image (skills ?st2) k' = field ent_image sk k'"
      unfolding agrees_iff by blast
    from 1 2 3 show ?thesis by metis
  qed
  show ?case
    unfolding eq using st old by (simp add: list_all_iff del: not_None_eq)
qed

lemma parse_color_entries:
  assumes t: "tidy sk" and s: "section st = Some CELL_COLOR" and lc: "last_comment st = None"
    and a: "agrees (skills st) sk"
  shows "list_all (\<lambda>k. map_of sk k \<noteq> None) ids \<Longrightarrow>
    section (foldl parse_line st (concat (map (emit_color sk []) ids))) = Some CELL_COLOR
    \<and> last_comment (foldl parse_line st (concat (map (emit_color sk []) ids))) = None
    \<and> agrees (skills (foldl parse_line st (concat (map (emit_color sk []) ids)))) sk
    \<and> list_all (\<lambda>k. field ent_color sk k = None
        \<or> (map_of (skills (foldl parse_line st (concat (map (emit_color sk []) ids)))) k \<noteq> None
          \<and> field ent_color (skills (foldl parse_line st (concat (map (emit_color sk []) ids)))) k
              = field ent_color sk k
          \<and> field ent_comment (skills (foldl parse_line st (concat (map (emit_color sk []) ids)))) k
              = field ent_comment sk k)) ids"
proof (induction ids rule: rev_induct)
  case Nil
  show ?case using s lc a by simp
next
  case (snoc k ids)
  let ?st1 = "foldl parse_line st (concat (map (emit_color sk []) ids))"
  let ?st2 = "foldl parse_line ?st1 (emit_color sk [] k)"
  from snoc.prems have ids: "list_all (\<lambda>k. map_of sk k \<noteq> None) ids" and k: "map_of sk k \<noteq> None"
    by simp_all
  from k obtain e where e: "map_of sk k = Some e" by auto
  note ih = snoc.IH [OF ids]
  from ih have s1: "section ?st1 = Some CELL_COLOR" and l1: "last_comment ?st1 = None"
    and a1: "agrees (skills ?st1) sk" by simp_all
  note st = parse_color_entry [OF t e s1 l1 a1]
  have eq: "foldl parse_line st (concat (map (emit_color sk []) (ids @ [k]))) = ?st2" by simp
  have g: "grows (skills ?st1) (skills ?st2)" by (rule grows_foldl)
  have a2: "agrees (skills ?st2) sk" using st by simp
  have old: "field ent_color sk k' = None
        \<or> (map_of (skills ?st2) k' \<noteq> None \<and> field ent_color (skills ?st2) k' = field ent_color sk k'
            \<and> field ent_comment (skills ?st2) k' = field ent_comment sk k')"
    if k': "k' \<in> set ids" for k'
  proof -
    from ih k' have 1: "field ent_color sk k' = None
        \<or> (map_of (skills ?st1) k' \<noteq> None \<and> field ent_color (skills ?st1) k' = field ent_color sk k'
            \<and> field ent_comment (skills ?st1) k' = field ent_comment sk k')"
      by (simp add: list_all_iff del: not_None_eq)
    from g have 2: "map_of (skills ?st1) k' \<noteq> None \<longrightarrow> map_of (skills ?st2) k' \<noteq> None"
      "field ent_color (skills ?st1) k' = None \<or> field ent_color (skills ?st2) k' \<noteq> None"
      "field ent_comment (skills ?st1) k' = None \<or> field ent_comment (skills ?st2) k' \<noteq> None"
      unfolding grows_iff by blast+
    from a2 have 3: "field ent_color (skills ?st2) k' = None
        \<or> field ent_color (skills ?st2) k' = field ent_color sk k'"
      "field ent_comment (skills ?st2) k' = None
        \<or> field ent_comment (skills ?st2) k' = field ent_comment sk k'"
      unfolding agrees_iff by blast+
    from 1 2 3 show ?thesis by metis
  qed
  show ?case
    unfolding eq using st old by (simp add: list_all_iff del: not_None_eq)
qed

section \<open>The lines outside the managed bodies\<close>

lemma chained_outside: "chained b (outside_lines b ls)"
  by (induction ls arbitrary: b) (auto split: line_kind.splits)

lemma set_outside: "set (outside_lines b ls) \<subseteq> set ls"
  by (induction ls arbitrary: b) (auto split: line_kind.splits)

lemma header_outside:
  "h \<in> set ls \<Longrightarrow> kind h = Header s \<Longrightarrow> h \<in> set (outside_lines b ls)"
  by (induction ls arbitrary: b) (auto split: line_kind.splits)

lemma outside_Nil_iff: "outside_lines False ls = [] \<longleftrightarrow> ls = []"
  by (cases ls) (auto split: line_kind.splits)

lemma outside_skip_block:
  "\<forall>l \<in> set block. \<forall>s. kind l \<noteq> Header s \<Longrightarrow>
     outside_lines True (block @ rest) = outside_lines True rest"
  by (induction block) (auto split: line_kind.splits)

lemma emit_image_lines:
  assumes "tidy sk" "l \<in> set (emit_image sk [] k)"
  shows "(\<forall>s. kind l \<noteq> Header s) \<and> break_free l"
proof (cases "map_of sk k")
  case None
  then show ?thesis using assms(2) by (simp add: emit_image_def)
next
  case (Some e)
  note td = tidy_D [OF assms(1) Some]
  from td(3) obtain v where v: "ent_image e = Some v" "v \<noteq> []" "strip v = v" "break_free v"
    by (auto simp: tidy_entry_def split: option.splits)
  have kl: "kind (k @ '' = '' @ v) = Skill k v"
    using td(1) v(2,3) by (rule kind_image_line)
  have bl: "break_free (k @ '' = '' @ v)"
    using td(2) v(4) by (simp add: break_free_simps is_break_def)
  have c: "kind c = Comment \<and> break_free c" if "ent_comment e = Some c" for c
    using td(3) that by (auto simp: tidy_entry_def split: option.splits)
  from assms(2) have "l = k @ '' = '' @ v \<or> l = [] \<or> ent_comment e = Some l"
    using Some v(1) by (cases "ent_comment e") (auto simp: emit_image_def split: if_splits)
  then show ?thesis
    using kl bl c by (auto simp: kind_Nil break_free_simps)
qed

lemma emit_color_lines:
  assumes "tidy sk" "l \<in> set (emit_color sk [] k)"
  shows "(\<forall>s. kind l \<noteq> Header s) \<and> break_free l"
proof (cases "map_of sk k")
  case None
  then show ?thesis using assms(2) by (simp add: emit_color_def)
next
  case (Some e)
  note td = tidy_D [OF assms(1) Some]
  show ?thesis
  proof (cases "ent_color e")
    case None
    then show ?thesis using assms(2) Some by (simp add: emit_color_def)
  next
    case v: (Some v)
    from td(3) v have vv: "v \<noteq> []" "strip v = v" "break_free v"
      by (auto simp: tidy_entry_def split: option.splits)
    have kl: "kind (k @ ''='' @ v) = Skill k v"
      using td(1) vv(1,2) by (rule kind_color_line)
    have bl: "break_free (k @ ''='' @ v)"
      using td(2) vv(3) by (simp add: break_free_simps is_break_def)
    have c: "kind c = Comment \<and> break_free c" if "ent_comment e = Some c" for c
      using td(3) that by (auto simp: tidy_entry_def split: option.splits)
    from assms(2) have "l = k @ ''='' @ v \<or> l = [] \<or> ent_comment e = Some l"
      using Some v by (cases "ent_comment e") (auto simp: emit_color_def split: if_splits)
    then show ?thesis
      using kl bl c by (auto simp: kind_Nil break_free_simps)
  qed
qed

lemma block_after_lines:
  assumes "tidy sk" "l \<in> set (block_after sk h)"
  shows "(\<forall>s. kind l \<noteq> Header s) \<and> break_free l"
proof -
  from assms(2) have "(\<exists>k. l \<in> set (emit_image sk [] k)) \<or> (\<exists>k. l \<in> set (emit_color sk [] k))"
    by (auto simp: block_after_def image_block_def color_block_def
        foldl_emit_image [of sk "[]"] foldl_emit_color [of sk "[]"] split: if_splits)
  then show ?thesis
    using emit_image_lines [OF assms(1)] emit_color_lines [OF assms(1)] by blast
qed

lemma block_after_not_header: "(\<And>s. kind h \<noteq> Header s) \<Longrightarrow> block_after sk h = []"
  by (simp add: block_after_def)

lemma outside_expand:
  assumes t: "tidy sk"
  shows "chained b U \<Longrightarrow> outside_lines b (concat (map (\<lambda>l. l # block_after sk l) U)) = U"
proof (induction U arbitrary: b)
  case Nil
  show ?case by simp
next
  case (Cons l U)
  show ?case
  proof (cases "kind l")
    case (Header s)
    let ?m = "s = CELL_IMAGE \<or> s = CELL_COLOR"
    from Cons.prems Header have ch: "chained ?m U" by simp
    have nb: "\<forall>x \<in> set (block_after sk l). \<forall>s. kind x \<noteq> Header s"
      using block_after_lines [OF t] by blast
    have "outside_lines ?m (block_after sk l @ concat (map (\<lambda>l. l # block_after sk l) U))
          = outside_lines ?m (concat (map (\<lambda>l. l # block_after sk l) U))"
    proof (cases ?m)
      case True
      then show ?thesis using outside_skip_block [OF nb] by simp
    next
      case False
      then have "block_after sk l = []" using Header by (simp add: block_after_def)
      then show ?thesis by simp
    qed
    then show ?thesis using Header Cons.IH [OF ch] by simp
  next
    case Comment
    with Cons.prems have "\<not> b" "chained False U" by simp_all
    then show ?thesis using Comment Cons.IH [of False] by (simp add: block_after_def)
  next
    case (Skill k v)
    with Cons.prems have "\<not> b" "chained False U" by simp_all
    then show ?thesis using Skill Cons.IH [of False] by (simp add: block_after_def)
  next
    case Other
    with Cons.prems have "\<not> b" "chained False U" by simp_all
    then show ?thesis using Other Cons.IH [of False] by (simp add: block_after_def)
  qed
qed

section \<open>Parsing a rebuilt text\<close>

lemma list_all_skill_ids: "list_all P (skill_ids sk) \<longleftrightarrow> list_all P (map fst sk)"
  by (simp add: skill_ids_def list_all_iff)

lemma has_keys_skill_ids: "list_all (\<lambda>k. map_of sk k \<noteq> None) (skill_ids sk)"
  unfolding list_all_skill_ids all_keys_iff by blast

lemma section_parse_line_not_header:
  assumes "\<And>s. kind l \<noteq> Header s"
  shows "section (parse_line st l) = section st"
proof (cases "kind l")
  case (Header s)
  with assms [of s] show ?thesis by simp
qed (simp_all add: section_parse_line)

lemma parse_rebuilt:
  assumes t: "tidy sk"
  shows "chained b U \<Longrightarrow> agrees (skills st) sk \<Longrightarrow>
     (section st = Some CELL_COLOR \<or> section st = Some CELL_IMAGE \<longrightarrow> b) \<Longrightarrow>
     (\<forall>l \<in> set U. \<forall>k v. kind l = Skill k v \<longrightarrow> map_of sk k \<noteq> None) \<Longrightarrow>
     agrees (skills (foldl parse_line st (concat (map (\<lambda>l. l # block_after sk l) U)))) sk
     \<and> (has_images (skills st) sk \<or> (\<exists>h \<in> set U. kind h = Header CELL_IMAGE) \<longrightarrow>
          has_images (skills (foldl parse_line st (concat (map (\<lambda>l. l # block_after sk l) U)))) sk)
     \<and> (has_colors (skills st) sk \<or> (\<exists>h \<in> set U. kind h = Header CELL_COLOR) \<longrightarrow>
          has_colors (skills (foldl parse_line st (concat (map (\<lambda>l. l # block_after sk l) U)))) sk)"
proof (induction U arbitrary: b st)
  case Nil
  then show ?case by simp
next
  case (Cons l U)
  let ?X = "\<lambda>U. concat (map (\<lambda>l. l # block_after sk l) U)"
  let ?st1 = "parse_line st l"
  let ?st2 = "foldl parse_line ?st1 (block_after sk l)"
  have eq: "foldl parse_line st (?X (l # U)) = foldl parse_line ?st2 (?X U)" by simp
  have keys: "\<forall>l \<in> set U. \<forall>k v. kind l = Skill k v \<longrightarrow> map_of sk k \<noteq> None"
    using Cons.prems(4) by simp
  have kl: "\<And>k v. kind l = Skill k v \<Longrightarrow> map_of sk k \<noteq> None"
    using Cons.prems(4) by simp
  have g: "grows (skills st) (skills ?st2)"
    using grows_trans [OF grows_parse_line [of st l] grows_foldl [of ?st1 "block_after sk l"]] .
  text \<open>The state after the line and its block, and the flag for the lines that follow.\<close>
  have step: "\<exists>b'. chained b' U \<and> agrees (skills ?st2) sk
      \<and> (section ?st2 = Some CELL_COLOR \<or> section ?st2 = Some CELL_IMAGE \<longrightarrow> b')
      \<and> (kind l = Header CELL_IMAGE \<longrightarrow> has_images (skills ?st2) sk)
      \<and> (kind l = Header CELL_COLOR \<longrightarrow> has_colors (skills ?st2) sk)"
  proof (cases "kind l")
    case (Header s)
    have st1: "skills ?st1 = skills st" "section ?st1 = Some s" "last_comment ?st1 = None"
      using Header by (simp_all add: parse_line_kind)
    have a1: "agrees (skills ?st1) sk" using Cons.prems(2) by (simp add: st1)
    have ch: "chained (s = CELL_IMAGE \<or> s = CELL_COLOR) U" using Cons.prems(1) Header by simp
    show ?thesis
    proof (cases "s = CELL_IMAGE")
      case True
      have bl: "block_after sk l = concat (map (emit_image sk []) (skill_ids sk))"
        using Header True by (simp add: block_after_def image_block_def foldl_emit_image [of sk "[]"])
      have s1: "section ?st1 = Some CELL_IMAGE" using st1 True by simp
      note p = parse_image_entries [OF t s1 a1 has_keys_skill_ids [of sk]]
      have hi: "has_images (skills ?st2) sk"
        unfolding has_images_def bl using p by (simp add: list_all_skill_ids)
      have "section ?st2 = Some CELL_IMAGE" "agrees (skills ?st2) sk"
        unfolding bl using p by simp_all
      then show ?thesis
        using ch True Header hi CELL_neq by (intro exI [of _ True]) auto
    next
      case nI: False
      show ?thesis
      proof (cases "s = CELL_COLOR")
        case True
        have bl: "block_after sk l = concat (map (emit_color sk []) (skill_ids sk))"
          using Header True nI by (simp add: block_after_def color_block_def foldl_emit_color [of sk "[]"])
        have s1: "section ?st1 = Some CELL_COLOR" using st1 True by simp
        note p = parse_color_entries [OF t s1 st1(3) a1 has_keys_skill_ids [of sk]]
        have hc: "has_colors (skills ?st2) sk"
          unfolding has_colors_def bl using p by (simp add: list_all_skill_ids)
        have "section ?st2 = Some CELL_COLOR" "agrees (skills ?st2) sk"
          unfolding bl using p by simp_all
        then show ?thesis
          using ch True Header hc CELL_neq by (intro exI [of _ True]) auto
      next
        case False
        have bl: "block_after sk l = []" using Header False nI by (simp add: block_after_def)
        show ?thesis
          using ch False nI Header a1 st1 by (intro exI [of _ False]) (auto simp: bl)
      qed
    qed
  next
    case Comment
    then have nh: "\<And>s. kind l \<noteq> Header s" by simp
    from Cons.prems(1) Comment have ch: "\<not> b" "chained False U" by simp_all
    with Cons.prems(3) have s: "section st \<noteq> Some CELL_COLOR" "section st \<noteq> Some CELL_IMAGE"
      by auto
    have bl: "block_after sk l = []" using nh by (rule block_after_not_header)
    have "agrees (skills ?st1) sk"
      using Cons.prems(2) s kl by (rule agrees_parse_line_outside)
    then show ?thesis
      using ch s Comment section_parse_line_not_header [OF nh, of st]
      by (intro exI [of _ False]) (simp add: bl)
  next
    case (Skill k v)
    then have nh: "\<And>s. kind l \<noteq> Header s" by simp
    from Cons.prems(1) Skill have ch: "\<not> b" "chained False U" by simp_all
    with Cons.prems(3) have s: "section st \<noteq> Some CELL_COLOR" "section st \<noteq> Some CELL_IMAGE"
      by auto
    have bl: "block_after sk l = []" using nh by (rule block_after_not_header)
    have "agrees (skills ?st1) sk"
      using Cons.prems(2) s kl by (rule agrees_parse_line_outside)
    then show ?thesis
      using ch s Skill section_parse_line_not_header [OF nh, of st]
      by (intro exI [of _ False]) (simp add: bl)
  next
    case Other
    then have nh: "\<And>s. kind l \<noteq> Header s" by simp
    from Cons.prems(1) Other have ch: "\<not> b" "chained False U" by simp_all
    with Cons.prems(3) have s: "section st \<noteq> Some CELL_COLOR" "section st \<noteq> Some CELL_IMAGE"
      by auto
    have bl: "block_after sk l = []" using nh by (rule block_after_not_header)
    have "agrees (skills ?st1) sk"
      using Cons.prems(2) s kl by (rule agrees_parse_line_outside)
    then show ?thesis
      using ch s Other section_parse_line_not_header [OF nh, of st]
      by (intro exI [of _ False]) (simp add: bl)
  qed
  then obtain b' where b': "chained b' U" "agrees (skills ?st2) sk"
      "section ?st2 = Some CELL_COLOR \<or> section ?st2 = Some CELL_IMAGE \<longrightarrow> b'"
      "kind l = Header CELL_IMAGE \<longrightarrow> has_images (skills ?st2) sk"
      "kind l = Header CELL_COLOR \<longrightarrow> has_colors (skills ?st2) sk"
    by blast
  note ih = Cons.IH [OF b'(1) b'(2) b'(3) keys]
  have i2: "has_images (skills ?st2) sk" if "has_images (skills st) sk"
    using that g b'(2) by (rule has_images_grows)
  have c2: "has_colors (skills ?st2) sk" if "has_colors (skills st) sk"
    using that g b'(2) by (rule has_colors_grows)
  show ?case
    unfolding eq using ih i2 c2 b'(4,5) by auto
qed

section \<open>The rebuilt sections of the second pass\<close>

lemma map_of_apply_filename_rules:
  "map_of (apply_filename_rules sk) k = map_option (infer_image k) (map_of sk k)"
  by (induction sk) (auto simp: apply_filename_rules_def)

lemma keys_apply_filename_rules: "map fst (apply_filename_rules sk) = map fst sk"
  by (induction sk) (auto simp: apply_filename_rules_def)

lemma infer_image_fields:
  "ent_color (infer_image k e) = ent_color e" "ent_comment (infer_image k e) = ent_comment e"
  "truthy (ent_image e) \<Longrightarrow> ent_image (infer_image k e) = ent_image e"
  by (simp_all add: infer_image_def split: option.splits)

lemma field_apply_filename_rules:
  "field ent_color (apply_filename_rules sk) k = field ent_color sk k"
  "field ent_comment (apply_filename_rules sk) k = field ent_comment sk k"
  "truthy (field ent_image sk k) \<Longrightarrow> field ent_image (apply_filename_rules sk) k = field ent_image sk k"
  "map_of (apply_filename_rules sk) k = None \<longleftrightarrow> map_of sk k = None"
  by (cases "map_of sk k"; simp add: field_def map_of_apply_filename_rules infer_image_fields)+

lemma emit_image_fields:
  "emit_image sk [] k =
     (if map_of sk k = None then []
      else (if truthy (field ent_comment sk k) then [the (field ent_comment sk k)] else [])
           @ [k @ '' = '' @ py_str (field ent_image sk k), []])"
  by (cases "map_of sk k") (simp_all add: emit_image_def field_def)

lemma emit_color_fields:
  "emit_color sk [] k =
     (if truthy (field ent_color sk k) then
        (if truthy (field ent_comment sk k) then [the (field ent_comment sk k)] else [])
        @ [k @ ''='' @ the (field ent_color sk k), []]
      else [])"
  by (cases "map_of sk k") (simp_all add: emit_color_def field_def)

lemma truthy_not_None: "truthy x \<Longrightarrow> x \<noteq> None"
  by (cases x) simp_all

lemma tidy_fields:
  assumes "tidy sk" "map_of sk k \<noteq> None"
  shows "truthy (field ent_image sk k)"
    and "field ent_color sk k = None \<Longrightarrow> field ent_comment sk k = None"
proof -
  from assms(2) obtain e where e: "map_of sk k = Some e" by auto
  note td = tidy_D [OF assms(1) e]
  show "truthy (field ent_image sk k)"
    using td(3) e by (auto simp: tidy_entry_def field_def split: option.splits)
  show "field ent_comment sk k = None" if "field ent_color sk k = None"
    using td(3) e that by (auto simp: tidy_entry_def field_def split: option.splits)
qed

lemma comment_agreed:
  assumes t: "tidy sk" and a: "agrees sk2 sk" and c: "has_colors sk2 sk" and k: "map_of sk k \<noteq> None"
  shows "field ent_comment sk2 k = field ent_comment sk k"
proof (cases "field ent_color sk k = None")
  case True
  then have "field ent_comment sk k = None" using tidy_fields(2) [OF t k] by simp
  moreover have "field ent_comment sk2 k = None \<or> field ent_comment sk2 k = field ent_comment sk k"
    using a unfolding agrees_iff by blast
  ultimately show ?thesis by auto
next
  case False
  note h = c [unfolded has_colors_iff, THEN spec, of k]
  show ?thesis using h False by auto
qed

lemma image_block_eq:
  assumes t: "tidy sk" and d: "distinct (map fst sk2)" and a: "agrees sk2 sk"
    and i: "has_images sk2 sk" and c: "has_colors sk2 sk"
  shows "image_block (apply_filename_rules sk2) = image_block sk"
proof -
  have keys: "map_of sk2 k \<noteq> None \<longleftrightarrow> map_of sk k \<noteq> None" for k
    using a i unfolding agrees_iff has_images_iff by blast
  have "k \<in> fst ` set sk2 \<longleftrightarrow> k \<in> fst ` set sk" for k
    unfolding key_iff by (rule keys)
  then have "fst ` set sk2 = fst ` set sk" by blast
  then have s: "set (map fst (apply_filename_rules sk2)) = set (map fst sk)"
    by (simp add: keys_apply_filename_rules)
  have d1: "distinct (map fst sk)" using t by (simp add: tidy_def)
  have ids: "skill_ids (apply_filename_rules sk2) = skill_ids sk"
    unfolding skill_ids_def
    using s d d1 by (intro sorted_distinct_set_unique) (simp_all add: keys_apply_filename_rules)
  have e: "emit_image (apply_filename_rules sk2) [] k = emit_image sk [] k"
    if "k \<in> set (skill_ids sk)" for k
  proof -
    from that have "k \<in> fst ` set sk" by (simp add: skill_ids_def)
    then have k: "map_of sk k \<noteq> None" using key_iff [of k sk] by blast
    then have k2: "map_of sk2 k \<noteq> None" using keys by simp
    have im: "field ent_image sk2 k = field ent_image sk k"
      using i k unfolding has_images_iff by blast
    have tr: "truthy (field ent_image sk2 k)" using tidy_fields(1) [OF t k] im by simp
    have cm: "field ent_comment sk2 k = field ent_comment sk k"
      using t a c k by (rule comment_agreed)
    have fi: "field ent_image (apply_filename_rules sk2) k = field ent_image sk k"
      using field_apply_filename_rules(3) [OF tr] im by simp
    show ?thesis
      using k k2
      by (simp add: emit_image_fields field_apply_filename_rules(1,2,4) fi cm del: not_None_eq)
  qed
  show ?thesis
    by (simp add: image_block_def foldl_emit_image [of _ "[]"] ids e cong: map_cong)
qed

lemma concat_map_filter:
  "(\<And>x. x \<in> set xs \<Longrightarrow> \<not> P x \<Longrightarrow> f x = []) \<Longrightarrow> concat (map f (filter P xs)) = concat (map f xs)"
  by (induction xs) auto

lemma color_block_eq:
  assumes t: "tidy sk" and d: "distinct (map fst sk2)" and a: "agrees sk2 sk"
    and c: "has_colors sk2 sk"
  shows "color_block (apply_filename_rules sk2) = color_block sk"
proof -
  let ?sk2 = "apply_filename_rules sk2"
  let ?P = "\<lambda>k. truthy (field ent_color sk k)" and ?P2 = "\<lambda>k. truthy (field ent_color sk2 k)"
  have d1: "distinct (map fst sk)" using t by (simp add: tidy_def)
  have col: "field ent_color sk2 k = field ent_color sk k \<and> field ent_comment sk2 k = field ent_comment sk k
      \<and> map_of sk2 k \<noteq> None"
    if "?P k" for k
  proof -
    from that have n: "field ent_color sk k \<noteq> None" by (rule truthy_not_None)
    note h = c [unfolded has_colors_iff, THEN spec, of k]
    show ?thesis using h n by auto
  qed
  have col2: "?P k \<and> map_of sk k \<noteq> None" if "?P2 k" for k
  proof -
    from that have n: "field ent_color sk2 k \<noteq> None" by (rule truthy_not_None)
    have m: "map_of sk2 k \<noteq> None"
    proof
      assume "map_of sk2 k = None"
      from field_None [OF this, of ent_color] n show False by simp
    qed
    note h = a [unfolded agrees_iff, THEN spec, of k]
    from h n have "field ent_color sk2 k = field ent_color sk k" by auto
    moreover from h m have "map_of sk k \<noteq> None" by auto
    ultimately show ?thesis using that by simp
  qed
  have sets: "set (filter ?P2 (skill_ids ?sk2)) = set (filter ?P (skill_ids sk))"
  proof -
    have "k \<in> set (filter ?P2 (skill_ids ?sk2)) \<longleftrightarrow> k \<in> set (filter ?P (skill_ids sk))" for k
    proof -
      have 1: "k \<in> set (skill_ids ?sk2) \<longleftrightarrow> map_of sk2 k \<noteq> None"
        unfolding key_iff [symmetric] by (simp add: skill_ids_def keys_apply_filename_rules)
      have 2: "k \<in> set (skill_ids sk) \<longleftrightarrow> map_of sk k \<noteq> None"
        unfolding key_iff [symmetric] by (simp add: skill_ids_def)
      show ?thesis using col [of k] col2 [of k] by (auto simp only: set_filter mem_Collect_eq 1 2)
    qed
    then show ?thesis by blast
  qed
  have ids: "filter ?P2 (skill_ids ?sk2) = filter ?P (skill_ids sk)"
    using sets d d1
    by (intro sorted_distinct_set_unique)
      (simp_all add: skill_ids_def keys_apply_filename_rules sorted_wrt_filter)
  have e: "emit_color ?sk2 [] k = emit_color sk [] k" if "k \<in> set (filter ?P (skill_ids sk))" for k
  proof -
    from that have "?P k" by simp
    from col [OF this] show ?thesis
      by (simp add: emit_color_fields field_apply_filename_rules)
  qed
  have "color_block ?sk2 = concat (map (emit_color ?sk2 []) (filter ?P2 (skill_ids ?sk2)))"
    by (simp add: color_block_def foldl_emit_color [of _ "[]"] concat_map_filter
        emit_color_fields field_apply_filename_rules)
  also have "\<dots> = concat (map (emit_color sk []) (filter ?P (skill_ids sk)))"
  proof -
    have m: "map (emit_color ?sk2 []) (filter ?P (skill_ids sk))
          = map (emit_color sk []) (filter ?P (skill_ids sk))"
      by (rule map_cong [OF refl]) (rule e)
    show ?thesis by (simp only: ids m)
  qed
  also have "\<dots> = color_block sk"
    by (simp add: color_block_def foldl_emit_color [of _ "[]"] concat_map_filter emit_color_fields)
  finally show ?thesis .
qed

section \<open>The dictionary of the first pass\<close>

lemma sound_init: "sound init_state"
  by (simp add: sound_def init_state_def field_def)

lemma sound_parse_skill:
  assumes s: "sound st" and k: "key_ok k" "break_free k" and v: "strip v = v" "break_free v"
    and c: "section st = Some CELL_COLOR \<Longrightarrow> v \<noteq> []"
  shows "sound (parse_skill st k v)"
proof -
  let ?sk = "skills st" and ?sk' = "skills (parse_skill st k v)"
  from s have d: "distinct (map fst ?sk)"
    and K: "\<And>k. map_of ?sk k \<noteq> None \<Longrightarrow> key_ok k \<and> break_free k"
    and I: "\<And>k v. field ent_image ?sk k = Some v \<Longrightarrow> strip v = v \<and> break_free v"
    and C: "\<And>k v. field ent_color ?sk k = Some v \<Longrightarrow> v \<noteq> [] \<and> strip v = v \<and> break_free v"
    and M: "\<And>k c. field ent_comment ?sk k = Some c \<Longrightarrow>
              kind c = Comment \<and> break_free c \<and> field ent_color ?sk k \<noteq> None"
    and L: "\<And>c. last_comment st = Some c \<Longrightarrow> kind c = Comment \<and> break_free c"
    unfolding sound_def by blast+
  show ?thesis
    unfolding sound_def
  proof (intro conjI)
    show "distinct (map fst ?sk')"
      using d by (simp add: keys_parse_skill distinct_setdefault)
    show "\<forall>k'. map_of ?sk' k' \<noteq> None \<longrightarrow> key_ok k' \<and> break_free k'"
    proof (intro allI impI)
      fix k'
      assume "map_of ?sk' k' \<noteq> None"
      then have "k' = k \<or> map_of ?sk k' \<noteq> None" by (simp only: has_key_parse_skill)
      then show "key_ok k' \<and> break_free k'" using k K by blast
    qed
    show "\<forall>k' w. field ent_image ?sk' k' = Some w \<longrightarrow> strip w = w \<and> break_free w"
    proof (intro allI impI)
      fix k' w
      assume "field ent_image ?sk' k' = Some w"
      then have "w = v \<or> field ent_image ?sk k' = Some w"
        by (simp add: image_parse_skill split: if_splits)
      then show "strip w = w \<and> break_free w" using v I by blast
    qed
    show "\<forall>k' w. field ent_color ?sk' k' = Some w \<longrightarrow> w \<noteq> [] \<and> strip w = w \<and> break_free w"
    proof (intro allI impI)
      fix k' w
      assume "field ent_color ?sk' k' = Some w"
      then have "(w = v \<and> section st = Some CELL_COLOR) \<or> field ent_color ?sk k' = Some w"
        by (simp add: color_parse_skill split: if_splits)
      then show "w \<noteq> [] \<and> strip w = w \<and> break_free w" using v c C by blast
    qed
    show "\<forall>k' m. field ent_comment ?sk' k' = Some m \<longrightarrow>
            kind m = Comment \<and> break_free m \<and> field ent_color ?sk' k' \<noteq> None"
    proof (intro allI impI)
      fix k' m
      assume a: "field ent_comment ?sk' k' = Some m"
      then have "(last_comment st = Some m \<and> k' = k \<and> section st = Some CELL_COLOR)
          \<or> field ent_comment ?sk k' = Some m"
        by (simp add: comment_parse_skill split: if_splits)
      then show "kind m = Comment \<and> break_free m \<and> field ent_color ?sk' k' \<noteq> None"
      proof
        assume h: "last_comment st = Some m \<and> k' = k \<and> section st = Some CELL_COLOR"
        then have "field ent_color ?sk' k' = Some v" by (simp add: color_parse_skill)
        then show ?thesis using h L by simp
      next
        assume h: "field ent_comment ?sk k' = Some m"
        from M [OF h] have "field ent_color ?sk k' \<noteq> None" by simp
        then have "field ent_color ?sk' k' \<noteq> None" by (simp add: color_parse_skill)
        then show ?thesis using M [OF h] by simp
      qed
    qed
    show "\<forall>m. last_comment (parse_skill st k v) = Some m \<longrightarrow> kind m = Comment \<and> break_free m"
      using L by (simp add: last_comment_parse_skill)
  qed
qed

lemma sound_parse_line:
  assumes s: "sound st" and b: "break_free l"
    and c: "\<And>k v. kind l = Skill k v \<Longrightarrow> section st = Some CELL_COLOR \<Longrightarrow> v \<noteq> []"
  shows "sound (parse_line st l)"
proof (cases "kind l")
  case (Header x)
  then show ?thesis using s by (simp add: parse_line_kind sound_def)
next
  case Comment
  then show ?thesis using s b by (simp add: parse_line_kind sound_def)
next
  case (Skill k v)
  note ks = kind_Skill_D [OF Skill]
  have "break_free k" "break_free v"
    using ks(3,4) b by (auto intro: break_free_subset)
  then show ?thesis
    using Skill s ks(1,2) c [OF Skill] by (simp add: parse_line_kind sound_parse_skill)
next
  case Other
  then show ?thesis using s by (simp add: parse_line_kind)
qed

lemma sound_foldl:
  "sound st \<Longrightarrow> list_all break_free ls \<Longrightarrow>
     list_all (\<lambda>(k, v). v \<noteq> []) (assigns CELL_COLOR (section st) ls) \<Longrightarrow>
     sound (foldl parse_line st ls)"
proof (induction ls arbitrary: st)
  case Nil
  then show ?case by simp
next
  case (Cons l ls)
  from Cons.prems(2) have b: "break_free l" and bs: "list_all break_free ls" by simp_all
  have c: "v \<noteq> []" if "kind l = Skill k v" "section st = Some CELL_COLOR" for k v
    using Cons.prems(3) that by simp
  have s1: "sound (parse_line st l)" using Cons.prems(1) b c by (rule sound_parse_line)
  have a: "list_all (\<lambda>(k, v). v \<noteq> []) (assigns CELL_COLOR (section (parse_line st l)) ls)"
    using Cons.prems(3) by (cases "kind l") (simp_all add: section_parse_line)
  show ?case using Cons.IH [OF s1 bs a] by simp
qed

lemma inferred_image_ok:
  assumes "strip s = s" "break_free s"
  shows "lower s @ ''.bmp'' \<noteq> [] \<and> strip (lower s @ ''.bmp'') = lower s @ ''.bmp''
    \<and> break_free (lower s @ ''.bmp'')"
  using assms by (simp add: strip_lower_bmp break_free_simps break_free_lower is_break_def)

lemma tidy_entry_infer:
  assumes k: "key_ok k" "break_free k"
    and i: "\<And>v. ent_image e = Some v \<Longrightarrow> strip v = v \<and> break_free v"
    and c: "\<And>v. ent_color e = Some v \<Longrightarrow> v \<noteq> [] \<and> strip v = v \<and> break_free v"
    and m: "\<And>c. ent_comment e = Some c \<Longrightarrow> kind c = Comment \<and> break_free c \<and> ent_color e \<noteq> None"
  shows "tidy_entry (infer_image k e)"
proof -
  have rest: "(case ent_color e of None \<Rightarrow> True | Some v \<Rightarrow> v \<noteq> [] \<and> strip v = v \<and> break_free v)
      \<and> (case ent_comment e of None \<Rightarrow> True
          | Some c \<Rightarrow> kind c = Comment \<and> break_free c \<and> ent_color e \<noteq> None)"
    using c m by (auto split: option.splits)
  show ?thesis
  proof (cases "truthy (ent_image e)")
    case True
    then obtain v where v: "ent_image e = Some v" "v \<noteq> []" by (cases "ent_image e") auto
    then show ?thesis
      using True rest i [OF v(1)] by (simp add: tidy_entry_def infer_image_def)
  next
    case False
    have sk: "strip k = k" using k(1) by (simp add: key_ok_def)
    note ik = inferred_image_ok [OF sk k(2)]
    have ic: "lower (strip (split_after (CHR ''#'') c)) @ ''.bmp'' \<noteq> []
        \<and> strip (lower (strip (split_after (CHR ''#'') c)) @ ''.bmp'')
            = lower (strip (split_after (CHR ''#'') c)) @ ''.bmp''
        \<and> break_free (lower (strip (split_after (CHR ''#'') c)) @ ''.bmp'')"
      if "ent_comment e = Some c" for c
    proof (rule inferred_image_ok)
      show "strip (strip (split_after (CHR ''#'') c)) = strip (split_after (CHR ''#'') c)"
        by (rule strip_strip)
      have "set (split_after (CHR ''#'') c) \<subseteq> set c"
        unfolding split_after_def by (meson in_set_dropD set_dropWhileD subsetI)
      then have "set (strip (split_after (CHR ''#'') c)) \<subseteq> set c"
        using set_strip by fastforce
      then show "break_free (strip (split_after (CHR ''#'') c))"
        using m [OF that] by (auto intro: break_free_subset)
    qed
    show ?thesis
      using False rest ik ic
      by (cases "ent_comment e") (simp_all add: tidy_entry_def infer_image_def)
  qed
qed

lemma tidy_apply_filename_rules:
  assumes "sound st"
  shows "tidy (apply_filename_rules (skills st))"
proof -
  let ?sk = "skills st"
  from assms have d: "distinct (map fst ?sk)"
    and K: "\<And>k. map_of ?sk k \<noteq> None \<Longrightarrow> key_ok k \<and> break_free k"
    and I: "\<And>k v. field ent_image ?sk k = Some v \<Longrightarrow> strip v = v \<and> break_free v"
    and C: "\<And>k v. field ent_color ?sk k = Some v \<Longrightarrow> v \<noteq> [] \<and> strip v = v \<and> break_free v"
    and M: "\<And>k c. field ent_comment ?sk k = Some c \<Longrightarrow>
              kind c = Comment \<and> break_free c \<and> field ent_color ?sk k \<noteq> None"
    unfolding sound_def by blast+
  have e: "key_ok k \<and> break_free k \<and> tidy_entry (infer_image k e)" if "(k, e) \<in> set ?sk" for k e
  proof -
    from that d have m: "map_of ?sk k = Some e" by simp
    then have f: "field f ?sk k = f e" for f by (simp add: field_def)
    have "key_ok k \<and> break_free k" using K [of k] m by simp
    moreover have "tidy_entry (infer_image k e)"
      using calculation I [of k] C [of k] M [of k]
      by (intro tidy_entry_infer) (simp_all add: f)
    ultimately show ?thesis by simp
  qed
  have 1: "distinct (map fst (apply_filename_rules ?sk))"
    using d by (simp only: keys_apply_filename_rules)
  have 2: "list_all (\<lambda>(k, e). key_ok k \<and> break_free k \<and> tidy_entry e) (apply_filename_rules ?sk)"
    using e by (auto simp: apply_filename_rules_def list_all_iff)
  show ?thesis
    unfolding tidy_def using 1 2 by (rule conjI)
qed

section \<open>Loading a saved text\<close>

lemma key_of_skill_line:
  "l \<in> set ls \<Longrightarrow> kind l = Skill k v \<Longrightarrow> map_of (skills (foldl parse_line st ls)) k \<noteq> None"
proof (induction ls arbitrary: st)
  case Nil
  then show ?case by simp
next
  case (Cons a ls)
  show ?case
  proof (cases "l = a")
    case True
    have 1: "map_of (skills (parse_line st a)) k \<noteq> None"
      using Cons.prems(2) True by (simp add: parse_line_kind has_key_parse_skill del: not_None_eq)
    have "grows (skills (parse_line st a)) (skills (foldl parse_line (parse_line st a) ls))"
      by (rule grows_foldl)
    then have "map_of (skills (parse_line st a)) k \<noteq> None \<longrightarrow>
        map_of (skills (foldl parse_line (parse_line st a) ls)) k \<noteq> None"
      unfolding grows_iff by blast
    with 1 show ?thesis by simp
  next
    case False
    with Cons.prems(1) have "l \<in> set ls" by simp
    from Cons.IH [OF this Cons.prems(2), of "parse_line st a"] show ?thesis by simp
  qed
qed

lemma assigns_no_header:
  "\<forall>l \<in> set ls. kind l \<noteq> Header S \<Longrightarrow> cur \<noteq> Some S \<Longrightarrow> assigns S cur ls = []"
proof (induction ls arbitrary: cur)
  case Nil
  show ?case by simp
next
  case (Cons a ls)
  from Cons.prems(1) have r: "\<forall>l \<in> set ls. kind l \<noteq> Header S" and a: "kind a \<noteq> Header S"
    by simp_all
  show ?case
  proof (cases "kind a")
    case (Header s)
    with a have "Some s \<noteq> Some S" by simp
    from Cons.IH [OF r this] Header show ?thesis by simp
  next
    case Comment
    with Cons.IH [OF r Cons.prems(2)] show ?thesis by simp
  next
    case (Skill k v)
    with Cons.IH [OF r Cons.prems(2)] Cons.prems(2) show ?thesis by simp
  next
    case Other
    with Cons.IH [OF r Cons.prems(2)] show ?thesis by simp
  qed
qed

lemma no_color_header:
  assumes "\<forall>l \<in> set ls. kind l \<noteq> Header CELL_COLOR"
  shows "field ent_color (apply_filename_rules (skills (foldl parse_line init_state ls))) k = None"
proof -
  have "assigns CELL_COLOR (section init_state) ls = []"
    using assms by (rule assigns_no_header) (simp add: init_state_def)
  then show ?thesis
    by (simp add: field_apply_filename_rules color_foldl_parse_line)
      (simp add: init_state_def field_def)
qed

lemma agrees_Nil: "agrees [] sk"
  by (simp add: agrees_def)

lemma rebuilt_fixed:
  assumes t: "tidy sk" and ls: "ls \<noteq> []" and bf: "list_all break_free ls"
    and keys: "\<forall>l \<in> set ls. \<forall>k v. kind l = Skill k v \<longrightarrow> map_of sk k \<noteq> None"
    and col: "(\<forall>l \<in> set ls. kind l \<noteq> Header CELL_COLOR) \<Longrightarrow> (\<forall>k. field ent_color sk k = None)"
  shows "round_trip (rebuild_ini ls sk) = rebuild_ini ls sk"
proof -
  define U where "U = outside_lines False ls"
  define L where "L = concat (map (\<lambda>l. l # block_after sk l) U)"
  define st2 where "st2 = foldl parse_line init_state L"
  define sk2 where "sk2 = apply_filename_rules (skills st2)"
  have L1: "rebuild_loop ls sk [] = L"
    by (simp add: rebuild_loop_outside U_def L_def del: rebuild_loop.simps)
  have Un: "U \<noteq> []" using ls by (simp add: U_def outside_Nil_iff)
  have Ln: "L \<noteq> []" using Un by (cases U) (simp_all add: L_def)
  have Us: "set U \<subseteq> set ls" unfolding U_def by (rule set_outside)
  have Lb: "list_all break_free L"
    unfolding list_all_iff
  proof
    fix x
    assume "x \<in> set L"
    then obtain l where l: "l \<in> set U" and x: "x = l \<or> x \<in> set (block_after sk l)"
      unfolding L_def by auto
    from x show "break_free x"
    proof
      assume "x = l"
      with l Us bf show ?thesis by (auto simp: list_all_iff)
    next
      assume "x \<in> set (block_after sk l)"
      from block_after_lines [OF t this] show ?thesis by simp
    qed
  qed
  have sp: "splitlines (rebuild_ini ls sk) = L"
    unfolding rebuild_ini_def L1 by (rule splitlines_join [OF Ln Lb])
  have ch: "chained False U" unfolding U_def by (rule chained_outside)
  have ag: "agrees (skills init_state) sk" by (simp add: init_state_def agrees_Nil)
  have se: "section init_state = Some CELL_COLOR \<or> section init_state = Some CELL_IMAGE \<longrightarrow> False"
    by (simp add: init_state_def)
  have ku: "\<forall>l \<in> set U. \<forall>k v. kind l = Skill k v \<longrightarrow> map_of sk k \<noteq> None"
    using keys Us by blast
  note pr = parse_rebuilt [OF t ch ag se ku, folded L_def st2_def]
  have a2: "agrees (skills st2) sk" using pr by blast
  have c2: "has_colors (skills st2) sk"
  proof (cases "\<exists>h \<in> set U. kind h = Header CELL_COLOR")
    case True
    then show ?thesis using pr by blast
  next
    case False
    have "\<forall>l \<in> set ls. kind l \<noteq> Header CELL_COLOR"
    proof
      fix l
      assume l: "l \<in> set ls"
      show "kind l \<noteq> Header CELL_COLOR"
      proof
        assume "kind l = Header CELL_COLOR"
        from header_outside [OF l this, of False] False this show False
          unfolding U_def by blast
      qed
    qed
    from col [OF this] show ?thesis unfolding has_colors_iff by blast
  qed
  have d2: "distinct (map fst (skills st2))"
    unfolding st2_def by (rule distinct_foldl_parse_line) (simp add: init_state_def)
  have cb: "color_block sk2 = color_block sk"
    unfolding sk2_def by (rule color_block_eq [OF t d2 a2 c2])
  have ib: "image_block sk2 = image_block sk" if "\<exists>h \<in> set U. kind h = Header CELL_IMAGE"
  proof -
    from that pr have "has_images (skills st2) sk" by blast
    then show ?thesis unfolding sk2_def by (rule image_block_eq [OF t d2 a2 _ c2])
  qed
  have ba: "block_after sk2 l = block_after sk l" if "l \<in> set U" for l
  proof (cases "kind l = Header CELL_IMAGE")
    case True
    with that have "\<exists>h \<in> set U. kind h = Header CELL_IMAGE" by blast
    from ib [OF this] True show ?thesis by (simp add: block_after_def)
  next
    case False
    then show ?thesis using cb by (simp add: block_after_def)
  qed
  have ou: "outside_lines False L = U"
    unfolding L_def by (rule outside_expand [OF t ch])
  have m: "map (\<lambda>l. l # block_after sk2 l) U = map (\<lambda>l. l # block_after sk l) U"
    by (rule map_cong [OF refl]) (simp add: ba)
  have L2: "rebuild_loop L sk2 [] = L"
    unfolding rebuild_loop_outside ou m by (simp add: L_def)
  have "round_trip (rebuild_ini ls sk) = rebuild_ini L sk2"
    by (simp add: round_trip_def parse_and_infer_def parse_ini_def Let_def sp st2_def sk2_def)
  also have "\<dots> = rebuild_ini ls sk"
    unfolding rebuild_ini_def L1 L2 by (rule refl)
  finally show ?thesis .
qed

text \<open>An empty value in a color section is what the condition on the text excludes: the
  entry then has a comment but no color to write, so its comment is written in the image
  section only, where the parser attaches no comment; the second pass has the image of
  the first and no comment, and the comment line is lost.\<close>

lemma round_trip_empty_color:
  "\<not> well_formed empty_color_text
   \<and> round_trip (round_trip empty_color_text) \<noteq> round_trip empty_color_text"
  by code_simp

text \<open>
  Claim C1: loading a text and saving it again gives a text that loading and saving leaves
  as it is: with \<open>t1\<close> the text rebuilt from the lines and the dictionary that parsing
  and inferring give for the input, rebuilding from what parsing and inferring give for
  \<open>t1\<close> yields \<open>t1\<close> again. The input is well formed in that every skill line of a
  color section gives a value; nothing is asked of the other lines, of the line breaks
  or of the form of the values.
\<close>

theorem round_trip_fixed_point:
  assumes w: "well_formed text"
  shows "round_trip (round_trip text) = round_trip text"
proof -
  define ls where "ls = splitlines text"
  define st where "st = foldl parse_line init_state ls"
  define sk where "sk = apply_filename_rules (skills st)"
  have rt: "round_trip text = rebuild_ini ls sk"
    by (simp add: round_trip_def parse_and_infer_def parse_ini_def Let_def ls_def st_def sk_def)
  show ?thesis
  proof (cases "ls = []")
    case True
    have "round_trip text = [CHR 0x0A]"
      unfolding rt True rebuild_ini_def rebuild_loop_outside by simp
    moreover have "round_trip [CHR 0x0A] = [CHR 0x0A]" by code_simp
    ultimately show ?thesis by simp
  next
    case False
    have bf: "list_all break_free ls"
      unfolding ls_def list_all_iff using splitlines_break_free by blast
    have as: "list_all (\<lambda>(k, v). v \<noteq> []) (assigns CELL_COLOR (section init_state) ls)"
      using w by (simp add: well_formed_def ls_def init_state_def)
    have so: "sound st"
      unfolding st_def by (rule sound_foldl [OF sound_init bf as])
    have t: "tidy sk"
      unfolding sk_def by (rule tidy_apply_filename_rules [OF so])
    have keys: "\<forall>l \<in> set ls. \<forall>k v. kind l = Skill k v \<longrightarrow> map_of sk k \<noteq> None"
    proof (intro ballI allI impI)
      fix l k v
      assume "l \<in> set ls" "kind l = Skill k v"
      then have "map_of (skills st) k \<noteq> None" unfolding st_def by (rule key_of_skill_line)
      then show "map_of sk k \<noteq> None"
        unfolding sk_def by (simp add: field_apply_filename_rules(4) del: not_None_eq)
    qed
    have col: "\<forall>k. field ent_color sk k = None" if "\<forall>l \<in> set ls. kind l \<noteq> Header CELL_COLOR"
      unfolding sk_def st_def using no_color_header [OF that] by blast
    show ?thesis
      unfolding rt by (rule rebuilt_fixed [OF t False bf keys col])
  qed
qed

theorem round_trip_fixed_point_witness:
  "well_formed sample_text \<and> round_trip (round_trip sample_text) = round_trip sample_text"
proof -
  have w: "well_formed sample_text" by code_simp
  show ?thesis using w round_trip_fixed_point [OF w] by blast
qed

section \<open>The order of the rebuilt entries\<close>

lemma kind_image_line_empty:
  assumes k: "key_ok k"
  shows "kind (k @ '' = '') = Skill k []"
proof -
  let ?s = "k @ CHR '' '' # ''=''"
  have kh: "k \<noteq> []" "hd k = CHR ''S''" using key_ok_hd [OF k] by simp_all
  have s0: "strip ?s = ?s"
    using kh by (intro strip_id) (simp_all add: space_simps)
  have "strip (?s @ [CHR '' '']) = ?s"
    using s0 by (intro strip_snoc_space) (simp_all add: space_simps)
  then have s: "strip (k @ CHR '' '' # CHR ''='' # '' '') = ?s" by simp
  have nh: "\<not> is_header ?s \<and> \<not> startswith ?s '';''"
    using kh by (intro not_header_S) simp_all
  have ne: "CHR ''='' \<notin> set (k @ [CHR '' ''])" using k by (simp add: key_ok_def)
  have b: "split_before (CHR ''='') ?s = k @ [CHR '' '']"
    and a: "split_after (CHR ''='') ?s = []"
    using split_at_eq [OF ne, of "[]"] by simp_all
  have sk: "strip (k @ [CHR '' '']) = k"
    using k by (simp add: strip_snoc_space space_simps key_ok_def)
  have "kind (k @ CHR '' '' # CHR ''='' # '' '') = Skill k []"
    using k nh by (simp add: kind_def Let_def s b a sk strip_Nil key_ok_def)
  then show ?thesis by simp
qed

lemma kind_image_line_stripped:
  "key_ok k \<Longrightarrow> strip v = v \<Longrightarrow> kind (k @ CHR '' '' # CHR ''='' # CHR '' '' # v) = Skill k v"
  using kind_image_line_empty [of k] kind_image_line [of k v] by (cases "v = []") simp_all

lemma kind_color_line_stripped:
  "key_ok k \<Longrightarrow> v \<noteq> [] \<Longrightarrow> strip v = v \<Longrightarrow> kind (k @ CHR ''='' # v) = Skill k v"
  using kind_color_line [of k v] by simp

lemma strip_None: "strip ''None'' = ''None''"
  by (intro strip_id) (simp_all add: is_space_def)

lemma readable_D:
  assumes "readable sk" "map_of sk k = Some e"
  shows "key_ok k" "readable_entry e"
proof -
  from assms(2) have "(k, e) \<in> set sk" by (rule map_of_SomeD)
  with assms(1) show "key_ok k" "readable_entry e"
    by (auto simp: readable_def list_all_iff)
qed

lemma assigns_emit_image:
  assumes r: "readable sk" and k: "map_of sk k \<noteq> None"
  shows "assigns S (Some S) (emit_image sk [] k @ rest)
    = (k, py_str (field ent_image sk k)) # assigns S (Some S) rest"
proof -
  from k obtain e where e: "map_of sk k = Some e" by auto
  note d = readable_D [OF r e]
  have v: "strip (py_str (ent_image e)) = py_str (ent_image e)"
    using d(2) by (cases "ent_image e") (simp_all add: readable_entry_def strip_None)
  have kl: "kind (k @ CHR '' '' # CHR ''='' # CHR '' '' # py_str (ent_image e))
      = Skill k (py_str (ent_image e))"
    using d(1) v by (rule kind_image_line_stripped)
  have c: "kind (the (ent_comment e)) = Comment" if "truthy (ent_comment e)"
    using that d(2) by (cases "ent_comment e") (simp_all add: readable_entry_def)
  show ?thesis
    using c by (simp add: emit_image_def e field_def kl kind_Nil)
qed

lemma assigns_emit_color:
  assumes r: "readable sk"
  shows "assigns S (Some S) (emit_color sk [] k @ rest)
    = (if truthy (field ent_color sk k) then [(k, the (field ent_color sk k))] else [])
      @ assigns S (Some S) rest"
proof (cases "map_of sk k")
  case None
  then show ?thesis by (simp add: emit_color_def field_def)
next
  case (Some e)
  note d = readable_D [OF r Some]
  show ?thesis
  proof (cases "truthy (ent_color e)")
    case False
    then show ?thesis by (simp add: emit_color_def Some field_def)
  next
    case True
    then obtain v where v: "ent_color e = Some v" "v \<noteq> []" by (cases "ent_color e") auto
    have "strip v = v" using d(2) v(1) by (simp add: readable_entry_def)
    then have kl: "kind (k @ CHR ''='' # v) = Skill k v"
      using d(1) v(2) by (intro kind_color_line_stripped)
    have c: "kind (the (ent_comment e)) = Comment" if "truthy (ent_comment e)"
      using that d(2) by (cases "ent_comment e") (simp_all add: readable_entry_def)
    show ?thesis
      using c by (simp add: emit_color_def Some field_def v kl kind_Nil)
  qed
qed

lemma assigns_image_ids:
  assumes r: "readable sk"
  shows "\<forall>k \<in> set ids. map_of sk k \<noteq> None \<Longrightarrow>
    assigns S (Some S) (concat (map (emit_image sk []) ids))
      = map (\<lambda>k. (k, py_str (field ent_image sk k))) ids"
proof (induction ids)
  case Nil
  show ?case by simp
next
  case (Cons k ids)
  from Cons.prems have k: "map_of sk k \<noteq> None" and rest: "\<forall>k \<in> set ids. map_of sk k \<noteq> None"
    by simp_all
  show ?case
    using assigns_emit_image [OF r k, of S "concat (map (emit_image sk []) ids)"] Cons.IH [OF rest]
    by simp
qed

lemma assigns_color_ids:
  assumes r: "readable sk"
  shows "assigns S (Some S) (concat (map (emit_color sk []) ids))
      = map (\<lambda>k. (k, the (field ent_color sk k))) (filter (\<lambda>k. truthy (field ent_color sk k)) ids)"
proof (induction ids)
  case Nil
  show ?case by simp
next
  case (Cons k ids)
  show ?case
    using assigns_emit_color [OF r, of S k "concat (map (emit_color sk []) ids)"] Cons.IH
    by simp
qed

lemma image_block_lines:
  "image_block sk
     = concat (map (\<lambda>k. (if truthy (field ent_comment sk k) then [the (field ent_comment sk k)] else [])
                        @ [k @ '' = '' @ py_str (field ent_image sk k), []])
                (sort (map fst sk)))"
proof -
  have "map (emit_image sk []) (sort (map fst sk))
      = map (\<lambda>k. (if truthy (field ent_comment sk k) then [the (field ent_comment sk k)] else [])
                        @ [k @ '' = '' @ py_str (field ent_image sk k), []]) (sort (map fst sk))"
  proof (rule map_cong [OF refl])
    fix k
    assume "k \<in> set (sort (map fst sk))"
    then have "k \<in> fst ` set sk" by simp
    then have "map_of sk k \<noteq> None" unfolding key_iff .
    then show "emit_image sk [] k
      = (if truthy (field ent_comment sk k) then [the (field ent_comment sk k)] else [])
          @ [k @ '' = '' @ py_str (field ent_image sk k), []]"
      by (simp add: emit_image_fields del: not_None_eq)
  qed
  then show ?thesis
    by (simp only: image_block_def skill_ids_def foldl_emit_image [of sk "[]"] append_Nil)
qed

lemma color_block_lines:
  "color_block sk
     = concat (map (\<lambda>k. (if truthy (field ent_comment sk k) then [the (field ent_comment sk k)] else [])
                        @ [k @ ''='' @ the (field ent_color sk k), []])
                (filter (\<lambda>k. truthy (field ent_color sk k)) (sort (map fst sk))))"
proof -
  let ?f = "\<lambda>k. (if truthy (field ent_comment sk k) then [the (field ent_comment sk k)] else [])
                        @ [k @ ''='' @ the (field ent_color sk k), []]"
  let ?P = "\<lambda>k. truthy (field ent_color sk k)"
  have "concat (map (emit_color sk []) (filter ?P (sort (map fst sk))))
      = concat (map (emit_color sk []) (sort (map fst sk)))"
    by (rule concat_map_filter) (simp add: emit_color_fields)
  moreover have "map (emit_color sk []) (filter ?P (sort (map fst sk)))
      = map ?f (filter ?P (sort (map fst sk)))"
    by (rule map_cong [OF refl]) (simp add: emit_color_fields)
  ultimately show ?thesis
    by (simp only: color_block_def skill_ids_def foldl_emit_color [of sk "[]"] append_Nil)
qed

text \<open>
  Claim C7: for every list of raw lines and every dictionary, the entries of each rebuilt
  managed section are in ascending order of their identifiers. The lines put after a
  managed header, whatever raw lines stood there, are those of one entry after the other
  in the ascending order of the keys (for the color section, of the keys that have a
  color): the comment if there is one, the key line with the identifier, a blank line;
  they do not depend on the order in which the dictionary got its keys. For a dictionary
  that can be read back, the key lines that the parser finds in the rebuilt section are
  those of these entries with their values, the identifiers strictly ascending.
\<close>

theorem rebuilt_sections_sorted:
  "image_block sk
     = concat (map (\<lambda>k. (if truthy (field ent_comment sk k) then [the (field ent_comment sk k)] else [])
                        @ [k @ '' = '' @ py_str (field ent_image sk k), []])
                (sort (map fst sk)))
   \<and> color_block sk
     = concat (map (\<lambda>k. (if truthy (field ent_comment sk k) then [the (field ent_comment sk k)] else [])
                        @ [k @ ''='' @ the (field ent_color sk k), []])
                (filter (\<lambda>k. truthy (field ent_color sk k)) (sort (map fst sk))))
   \<and> (kind h = Header CELL_IMAGE \<longrightarrow>
        rebuild_loop (h # rest) sk nl = rebuild_loop (skip_section rest) sk (nl @ h # image_block sk))
   \<and> (kind h = Header CELL_COLOR \<longrightarrow>
        rebuild_loop (h # rest) sk nl = rebuild_loop (skip_section rest) sk (nl @ h # color_block sk))
   \<and> (distinct (map fst sk) \<and> distinct (map fst sk') \<and> set sk' = set sk \<longrightarrow>
        image_block sk' = image_block sk \<and> color_block sk' = color_block sk)
   \<and> (readable sk \<longrightarrow>
        assigns CELL_IMAGE (Some CELL_IMAGE) (image_block sk)
          = map (\<lambda>k. (k, py_str (field ent_image sk k))) (sort (map fst sk))
        \<and> assigns CELL_COLOR (Some CELL_COLOR) (color_block sk)
          = map (\<lambda>k. (k, the (field ent_color sk k)))
              (filter (\<lambda>k. truthy (field ent_color sk k)) (sort (map fst sk)))
        \<and> sorted_wrt (<) (map fst (assigns CELL_IMAGE (Some CELL_IMAGE) (image_block sk)))
        \<and> sorted_wrt (<) (map fst (assigns CELL_COLOR (Some CELL_COLOR) (color_block sk))))"
proof -
  have d: "rebuild_loop (h # rest) sk nl = rebuild_loop (skip_section rest) sk (nl @ h # image_block sk)"
    if "kind h = Header CELL_IMAGE"
    using that by (simp add: rebuild_loop_Cons del: rebuild_loop.simps)
  have ne: "CELL_COLOR \<noteq> CELL_IMAGE" by (simp add: CELL_COLOR_def CELL_IMAGE_def)
  have e: "rebuild_loop (h # rest) sk nl = rebuild_loop (skip_section rest) sk (nl @ h # color_block sk)"
    if "kind h = Header CELL_COLOR"
    using that ne by (simp add: rebuild_loop_Cons del: rebuild_loop.simps)
  have f: "image_block sk' = image_block sk \<and> color_block sk' = color_block sk"
    if "distinct (map fst sk) \<and> distinct (map fst sk') \<and> set sk' = set sk"
  proof -
    have ids: "skill_ids sk' = skill_ids sk" using that by (simp add: skill_ids_perm)
    have m: "map_of sk' = map_of sk" using that by (simp add: map_of_eq_distinct)
    have "emit_image sk' = emit_image sk" "emit_color sk' = emit_color sk"
      by (simp_all add: emit_image_def emit_color_def m fun_eq_iff)
    then show ?thesis by (simp add: image_block_def color_block_def ids)
  qed
  have g: "assigns CELL_IMAGE (Some CELL_IMAGE) (image_block sk)
          = map (\<lambda>k. (k, py_str (field ent_image sk k))) (sort (map fst sk))
        \<and> assigns CELL_COLOR (Some CELL_COLOR) (color_block sk)
          = map (\<lambda>k. (k, the (field ent_color sk k)))
              (filter (\<lambda>k. truthy (field ent_color sk k)) (sort (map fst sk)))
        \<and> sorted_wrt (<) (map fst (assigns CELL_IMAGE (Some CELL_IMAGE) (image_block sk)))
        \<and> sorted_wrt (<) (map fst (assigns CELL_COLOR (Some CELL_COLOR) (color_block sk)))"
    if r: "readable sk"
  proof -
    have keys: "\<forall>k \<in> set (sort (map fst sk)). map_of sk k \<noteq> None"
      using key_iff [of _ sk] by simp
    have i: "assigns CELL_IMAGE (Some CELL_IMAGE) (image_block sk)
          = map (\<lambda>k. (k, py_str (field ent_image sk k))) (sort (map fst sk))"
      using assigns_image_ids [OF r keys, of CELL_IMAGE]
      by (simp only: image_block_def skill_ids_def foldl_emit_image [of sk "[]"] append_Nil)
    have c: "assigns CELL_COLOR (Some CELL_COLOR) (color_block sk)
          = map (\<lambda>k. (k, the (field ent_color sk k)))
              (filter (\<lambda>k. truthy (field ent_color sk k)) (sort (map fst sk)))"
      using assigns_color_ids [OF r, of CELL_COLOR "sort (map fst sk)"]
      by (simp only: color_block_def skill_ids_def foldl_emit_color [of sk "[]"] append_Nil)
    have di: "distinct (map fst sk)" using r by (simp add: readable_def)
    have s1: "sorted_wrt (<) (sort (map fst sk))"
      using di by (simp add: strict_sorted_iff)
    have s2: "sorted_wrt (<) (filter (\<lambda>k. truthy (field ent_color sk k)) (sort (map fst sk)))"
      using s1 by (rule sorted_wrt_filter)
    have m: "map fst (map (\<lambda>k. (k, g k)) xs) = xs" for g :: "string \<Rightarrow> string" and xs
      by (induction xs) simp_all
    from i c s1 s2 show ?thesis by (simp only: m simp_thms)
  qed
  from image_block_lines [of sk] color_block_lines [of sk] d e f g show ?thesis by blast
qed

theorem rebuilt_sections_sorted_witness:
  "readable [(''Skill0002'', e2), (''Skill0001'', e1)]
   \<and> kind ''[LGP::CELL_IMAGE]'' = Header CELL_IMAGE
   \<and> assigns CELL_IMAGE (Some CELL_IMAGE) (image_block [(''Skill0002'', e2), (''Skill0001'', e1)])
       = [(''Skill0001'', ''fireball.bmp''), (''Skill0002'', ''b.bmp'')]
   \<and> assigns CELL_COLOR (Some CELL_COLOR) (color_block [(''Skill0002'', e2), (''Skill0001'', e1)])
       = [(''Skill0001'', ''0xFFFF0000'')]
   \<and> image_block [(''Skill0002'', e2), (''Skill0001'', e1)]
       = [''; #Fireball'', ''Skill0001 = fireball.bmp'', [], ''Skill0002 = b.bmp'', []]
   \<and> rebuild_loop [''[LGP::CELL_IMAGE]'', ''old''] [(''Skill0002'', e2), (''Skill0001'', e1)] []
       = ''[LGP::CELL_IMAGE]'' # image_block [(''Skill0002'', e2), (''Skill0001'', e1)]"
proof -
  let ?sk = "[(''Skill0002'', e2), (''Skill0001'', e1)]"
  have r: "readable ?sk" by code_simp
  have k: "kind ''[LGP::CELL_IMAGE]'' = Header CELL_IMAGE" by code_simp
  have i: "map (\<lambda>k. (k, py_str (field ent_image ?sk k))) (sort (map fst ?sk))
      = [(''Skill0001'', ''fireball.bmp''), (''Skill0002'', ''b.bmp'')]"
    by code_simp
  have c: "map (\<lambda>k. (k, the (field ent_color ?sk k)))
        (filter (\<lambda>k. truthy (field ent_color ?sk k)) (sort (map fst ?sk)))
      = [(''Skill0001'', ''0xFFFF0000'')]"
    by code_simp
  have b: "concat (map (\<lambda>k. (if truthy (field ent_comment ?sk k) then [the (field ent_comment ?sk k)] else [])
                        @ [k @ '' = '' @ py_str (field ent_image ?sk k), []])
                (sort (map fst ?sk)))
      = [''; #Fireball'', ''Skill0001 = fireball.bmp'', [], ''Skill0002 = b.bmp'', []]"
    by code_simp
  have s0: "skip_section [''old''] = []" by code_simp
  have s: "rebuild_loop (skip_section [''old'']) ?sk ([] @ ''[LGP::CELL_IMAGE]'' # image_block ?sk)
      = ''[LGP::CELL_IMAGE]'' # image_block ?sk"
    unfolding s0 by simp
  note t = rebuilt_sections_sorted [of ?sk "''[LGP::CELL_IMAGE]''" "[''old'']" "[]" ?sk]
  from t r have 1: "assigns CELL_IMAGE (Some CELL_IMAGE) (image_block ?sk)
      = map (\<lambda>k. (k, py_str (field ent_image ?sk k))) (sort (map fst ?sk))"
    by blast
  from t r have 2: "assigns CELL_COLOR (Some CELL_COLOR) (color_block ?sk)
      = map (\<lambda>k. (k, the (field ent_color ?sk k)))
          (filter (\<lambda>k. truthy (field ent_color ?sk k)) (sort (map fst ?sk)))"
    by blast
  from t have 3: "image_block ?sk
      = concat (map (\<lambda>k. (if truthy (field ent_comment ?sk k) then [the (field ent_comment ?sk k)] else [])
                        @ [k @ '' = '' @ py_str (field ent_image ?sk k), []])
                (sort (map fst ?sk)))"
    by blast
  from t k have 4: "rebuild_loop [''[LGP::CELL_IMAGE]'', ''old''] ?sk []
      = rebuild_loop (skip_section [''old'']) ?sk ([] @ ''[LGP::CELL_IMAGE]'' # image_block ?sk)"
    by blast
  show ?thesis
    using r k 1 [unfolded i] 2 [unfolded c] 3 [unfolded b] 4 [unfolded s] by blast
qed

end
